theory Spec2Isabelle
  imports Complex_Main "HOL-Library.Word" "HOL-Library.Multiset"
begin

section \<open>The sharded follow graph (internal/graph/graph.go)\<close>

text \<open>
  User identifiers are Go \<open>uint64\<close> values. A \<open>uint64Set\<close> is a Go map used as a set, so
  it is a HOL set of identifiers; a missing map entry and a \<open>nil\<close> set both read as the
  empty set (\<open>len\<close> 0, no member). The shard mutexes only serialise concurrent callers and
  are not part of the sequential model.
\<close>

type_synonym uid = "64 word"

record shard =
  following :: "uid \<rightharpoonup> uid set"
  followers :: "uid \<rightharpoonup> uid set"

record MemGraph =
  ss :: "nat \<Rightarrow> shard"
  epochs :: "uid \<rightharpoonup> 64 word"

definition shards :: nat where
  "shards = 64"

definition NewMemGraph :: MemGraph where
  "NewMemGraph = \<lparr> ss = (\<lambda>i. \<lparr> following = Map.empty, followers = Map.empty \<rparr>),
                   epochs = Map.empty \<rparr>"

definition h :: "uid \<Rightarrow> nat" where
  "h u = unat u mod shards"

definition UserEpoch :: "MemGraph \<Rightarrow> uid \<Rightarrow> 64 word" where
  "UserEpoch g u = (case epochs g u of Some v \<Rightarrow> v | None \<Rightarrow> 0)"

text \<open>\<open>TouchUsers\<close> walks its arguments in order; \<open>cur+1\<close> is \<open>uint64\<close> addition and wraps.\<close>

fun TouchUsers :: "MemGraph \<Rightarrow> uid list \<Rightarrow> MemGraph" where
  "TouchUsers g [] = g"
| "TouchUsers g (u # users) =
     (let cur = UserEpoch g u
      in TouchUsers (g\<lparr>epochs := (epochs g)(u \<mapsto> cur + 1)\<rparr>) users)"

definition set_following :: "MemGraph \<Rightarrow> uid \<Rightarrow> uid set option \<Rightarrow> MemGraph" where
  "set_following g u s =
     g\<lparr>ss := (ss g)(h u := (ss g (h u))\<lparr>following := (following (ss g (h u)))(u := s)\<rparr>)\<rparr>"

definition set_followers :: "MemGraph \<Rightarrow> uid \<Rightarrow> uid set option \<Rightarrow> MemGraph" where
  "set_followers g v s =
     g\<lparr>ss := (ss g)(h v := (ss g (h v))\<lparr>followers := (followers (ss g (h v)))(v := s)\<rparr>)\<rparr>"

text \<open>
  \<open>Follow\<close>: the result is the returned flag and the graph afterwards. The set found or
  created under \<open>su.following[u]\<close> is a reference, so adding to it is a write to the map.
\<close>

definition Follow :: "MemGraph \<Rightarrow> uid \<Rightarrow> uid \<Rightarrow> bool \<times> MemGraph" where
  "Follow g u v =
     (if u = v then (False, g)
      else
        let (fset, g1) = (case following (ss g (h u)) u of
                            None \<Rightarrow> ({}, set_following g u (Some {}))
                          | Some s \<Rightarrow> (s, g))
        in if v \<in> fset then (False, g1)
           else
             let g2 = set_following g1 u (Some (insert v fset));
                 (rset, g3) = (case followers (ss g2 (h v)) v of
                                 None \<Rightarrow> ({}, set_followers g2 v (Some {}))
                               | Some r \<Rightarrow> (r, g2));
                 g4 = set_followers g3 v (Some (insert u rset))
             in (True, TouchUsers g4 [u, v]))"

definition Unfollow :: "MemGraph \<Rightarrow> uid \<Rightarrow> uid \<Rightarrow> bool \<times> MemGraph" where
  "Unfollow g u v =
     (case following (ss g (h u)) u of
        None \<Rightarrow> (False, g)
      | Some fset \<Rightarrow>
          if v \<in> fset then
            let fset' = fset - {v};
                g1 = set_following g u (Some fset');
                g2 = (if card fset' = 0 then set_following g1 u None else g1);
                g3 = (case followers (ss g2 (h v)) v of
                        None \<Rightarrow> g2
                      | Some rset \<Rightarrow>
                          let rset' = rset - {u};
                              g2a = set_followers g2 v (Some rset')
                          in if card rset' = 0 then set_followers g2a v None else g2a)
            in (True, TouchUsers g3 [u, v])
          else (False, g))"

text \<open>The adjacency sets behind the read operations (a missing entry is the empty set).\<close>

definition following_set :: "MemGraph \<Rightarrow> uid \<Rightarrow> uid set" where
  "following_set g u = (case following (ss g (h u)) u of None \<Rightarrow> {} | Some s \<Rightarrow> s)"

definition followers_set :: "MemGraph \<Rightarrow> uid \<Rightarrow> uid set" where
  "followers_set g u = (case followers (ss g (h u)) u of None \<Rightarrow> {} | Some s \<Rightarrow> s)"

text \<open>
  Go iterates a map in an unspecified order. The order is a parameter of every operation
  that ranges over a map: a function giving, for a set of keys, the list in which they are
  visited. \<open>iter_ok\<close> says what Go guarantees of it: every key once. \<open>key_order\<close>,
  ascending identifiers, is one such function.
\<close>

type_synonym order = "uid set \<Rightarrow> uid list"

definition iter_ok :: "order \<Rightarrow> bool" where
  "iter_ok ord \<longleftrightarrow> (\<forall>S. set (ord S) = S \<and> distinct (ord S))"

definition key_order :: order where
  "key_order S = sorted_list_of_set S"

definition Following :: "order \<Rightarrow> MemGraph \<Rightarrow> uid \<Rightarrow> uid list" where
  "Following ord g u = ord (following_set g u)"

definition Followers :: "order \<Rightarrow> MemGraph \<Rightarrow> uid \<Rightarrow> uid list" where
  "Followers ord g u = ord (followers_set g u)"

text \<open>
  Go chooses the order anew at every \<open>range\<close> over a map, so two iterations of one map
  within a call of \<open>PYMK\<close> may differ. Each iteration that a call of \<open>PYMK\<close> performs is
  named by a \<open>site\<close>, and the call takes one order for each of them:
  \<^item> \<open>SiteFollowing\<close>, \<open>SiteFollowers\<close>: inside \<open>Following(u)\<close> and \<open>Followers(u)\<close>;
  \<^item> \<open>SiteRange p\<close>: the loop \<open>for n := range src\<close> of the \<open>p\<close>-th call of \<open>expand\<close>;
  \<^item> \<open>SiteNeighbors p n\<close>: inside \<open>Following(n)\<close> in the \<open>p\<close>-th call of \<open>expand\<close> (a
    neighbour is visited once in a call of \<open>expand\<close>);
  \<^item> \<open>SiteStats\<close>: the loop over the statistics map;
  \<^item> \<open>SiteCandidate c\<close>: inside \<open>Following(c)\<close> for the candidate \<open>c\<close>;
  \<^item> \<open>SiteInter c\<close>, \<open>SiteUnion c\<close>: the loop of \<open>intersectCount\<close> called for the
    candidate \<open>c\<close> directly and through \<open>unionSize\<close>.
\<close>

datatype site =
  SiteFollowing | SiteFollowers | SiteRange nat | SiteNeighbors nat uid | SiteStats
  | SiteCandidate uid | SiteInter uid | SiteUnion uid

type_synonym orders = "site \<Rightarrow> order"

definition iters_ok :: "orders \<Rightarrow> bool" where
  "iters_ok os \<longleftrightarrow> (\<forall>t. iter_ok (os t))"

definition key_orders :: orders where
  "key_orders t = key_order"

definition HasEdge :: "MemGraph \<Rightarrow> uid \<Rightarrow> uid \<Rightarrow> bool" where
  "HasEdge g u v = (case following (ss g (h u)) u of Some fset \<Rightarrow> v \<in> fset | None \<Rightarrow> False)"

definition DegreeOut :: "MemGraph \<Rightarrow> uid \<Rightarrow> nat" where
  "DegreeOut g u = card (following_set g u)"

definition DegreeIn :: "MemGraph \<Rightarrow> uid \<Rightarrow> nat" where
  "DegreeIn g u = card (followers_set g u)"

text \<open>The graphs a caller can build: from the empty graph by the three mutating operations.\<close>

inductive reach :: "MemGraph \<Rightarrow> bool" where
  reach_new: "reach NewMemGraph"
| reach_follow: "reach g \<Longrightarrow> reach (snd (Follow g u v))"
| reach_unfollow: "reach g \<Longrightarrow> reach (snd (Unfollow g u v))"
| reach_touch: "reach g \<Longrightarrow> reach (TouchUsers g users)"


text \<open>
  What every reachable graph satisfies: the two adjacency sides mirror each other, nobody
  follows themselves, and no map entry holds an empty set.
\<close>

definition graph_inv :: "MemGraph \<Rightarrow> bool" where
  "graph_inv g \<longleftrightarrow>
     (\<forall>u v. v \<in> following_set g u \<longleftrightarrow> u \<in> followers_set g v) \<and>
     (\<forall>u. u \<notin> following_set g u) \<and>
     (\<forall>u. following (ss g (h u)) u \<noteq> Some {}) \<and>
     (\<forall>u. followers (ss g (h u)) u \<noteq> Some {})"

text \<open>
  Sequences of graph operations, for the claims about what holds over any sequence.
  \<open>bumps g op w\<close> counts how often \<open>op\<close>, run in \<open>g\<close>, touches \<open>w\<close>: as an endpoint of a
  mutation that succeeds, or as an argument of \<open>TouchUsers\<close>.
\<close>

datatype op = OpFollow uid uid | OpUnfollow uid uid | OpTouch "uid list"

fun apply_op :: "MemGraph \<Rightarrow> op \<Rightarrow> MemGraph" where
  "apply_op g (OpFollow u v) = snd (Follow g u v)"
| "apply_op g (OpUnfollow u v) = snd (Unfollow g u v)"
| "apply_op g (OpTouch users) = TouchUsers g users"

fun bumps :: "MemGraph \<Rightarrow> op \<Rightarrow> uid \<Rightarrow> nat" where
  "bumps g (OpFollow u v) w = (if fst (Follow g u v) then count_list [u, v] w else 0)"
| "bumps g (OpUnfollow u v) w = (if fst (Unfollow g u v) then count_list [u, v] w else 0)"
| "bumps g (OpTouch users) w = count_list users w"

fun run :: "MemGraph \<Rightarrow> op list \<Rightarrow> MemGraph" where
  "run g [] = g"
| "run g (x # xs) = run (apply_op g x) xs"

fun total_bumps :: "MemGraph \<Rightarrow> op list \<Rightarrow> uid \<Rightarrow> nat" where
  "total_bumps g [] w = 0"
| "total_bumps g (x # xs) w = bumps g x w + total_bumps (apply_op g x) xs w"

text \<open>A graph with no edge in which the epoch of user 1 is the largest \<open>uint64\<close>.\<close>

definition wrap_graph :: MemGraph where
  "wrap_graph = NewMemGraph\<lparr> epochs := [1 \<mapsto> 18446744073709551615] \<rparr>"

section \<open>The embedding store (internal/embeds/embeds.go)\<close>

text \<open>
  Vectors are \<open>[]float32\<close>. Floating-point numbers are idealised as real numbers here and
  in the scoring below: rounding, infinities and NaN are outside the model.
\<close>

type_synonym MemEmbeds = "uid \<rightharpoonup> real list"

definition NewMemEmbeds :: MemEmbeds where
  "NewMemEmbeds = Map.empty"

definition embeds_Get :: "MemEmbeds \<Rightarrow> uid \<Rightarrow> real list option" where
  "embeds_Get e usr = e usr"

definition embeds_Put :: "MemEmbeds \<Rightarrow> uid \<Rightarrow> real list \<Rightarrow> MemEmbeds" where
  "embeds_Put e usr vec = e(usr \<mapsto> vec)"

section \<open>Suggestions and the recommendation cache (package pymk)\<close>

record Suggestion =
  UserID :: uid
  Score :: real
  CommonNeighbors :: int
  Jaccard :: real
  AdamicAdar :: real
  Cosine :: real

record cacheKey =
  ck_user :: uid
  ck_k :: int
  ck_epoch :: "64 word"

text \<open>Times and durations are integers (nanoseconds); \<open>After\<close> is the strict order.\<close>

type_synonym time = int

record cacheEntry =
  ce_key :: cacheKey
  ce_value :: "Suggestion list"
  ce_expiresAt :: time

text \<open>
  The counter vector \<open>PYMKCache\<close> of package \<open>metrics\<close> is a global variable: it maps a
  label to a count, and \<open>WithLabelValues(l).Inc()\<close> adds one to the count of \<open>l\<close>. It is the
  only global state the cache and \<open>PYMK\<close> write to, through the callbacks of the cache; a
  callback \<open>func()\<close> is a function on this state, and a \<open>nil\<close> callback is \<open>None\<close>.
\<close>

record metrics =
  PYMKCache :: "string \<Rightarrow> nat"

definition no_events :: metrics where
  "no_events = \<lparr> PYMKCache = (\<lambda>l. 0) \<rparr>"

definition PYMKCache_Inc :: "string \<Rightarrow> metrics \<Rightarrow> metrics" where
  "PYMKCache_Inc l m = m\<lparr> PYMKCache := (PYMKCache m)(l := PYMKCache m l + 1) \<rparr>"

type_synonym callback = "metrics \<Rightarrow> metrics"

definition call :: "callback option \<Rightarrow> metrics \<Rightarrow> metrics" where
  "call f m = (case f of None \<Rightarrow> m | Some g \<Rightarrow> g m)"

text \<open>
  The recency list \<open>ll\<close> has its front first. A list element is identified by its key:
  \<open>Set\<close> pushes an element only for a key the table does not hold, so no two elements of
  the list carry one key. The table maps a key to its element, and an entry changed through
  the element is changed in both.
\<close>

record lruCache =
  capacity :: int
  ttl :: int
  ll :: "cacheEntry list"
  table :: "cacheKey \<rightharpoonup> cacheEntry"
  onEvict :: "callback option"
  onHit :: "callback option"
  onMiss :: "callback option"

definition newLRU :: "int \<Rightarrow> int \<Rightarrow> lruCache" where
  "newLRU cap t = \<lparr> capacity = cap, ttl = t, ll = [], table = Map.empty,
                     onEvict = None, onHit = None, onMiss = None \<rparr>"

definition removeElement :: "lruCache \<Rightarrow> cacheEntry \<Rightarrow> lruCache" where
  "removeElement c ent =
     c\<lparr> table := (table c)(ce_key ent := None),
        ll := filter (\<lambda>e. ce_key e \<noteq> ce_key ent) (ll c) \<rparr>"

definition MoveToFront :: "cacheEntry list \<Rightarrow> cacheEntry \<Rightarrow> cacheEntry list" where
  "MoveToFront l ent = ent # filter (\<lambda>e. ce_key e \<noteq> ce_key ent) l"

text \<open>
  The methods \<open>removeOldest\<close>, \<open>Get\<close> and \<open>Set\<close> of \<open>lruCache\<close>. Each takes the counters
  as they are before the call and returns, with its result and the cache afterwards, the
  counters as its callbacks leave them.
\<close>

definition lruCache_removeOldest :: "lruCache \<Rightarrow> metrics \<Rightarrow> lruCache \<times> metrics" where
  "lruCache_removeOldest c m =
     (case rev (ll c) of
        [] \<Rightarrow> (c, m)
      | ele # _ \<Rightarrow> (removeElement c ele, call (onEvict c) m))"

definition lruCache_Get ::
  "lruCache \<Rightarrow> time \<Rightarrow> cacheKey \<Rightarrow> metrics
     \<Rightarrow> (Suggestion list option \<times> lruCache) \<times> metrics" where
  "lruCache_Get c now key m =
     (if capacity c = 0 then ((None, c), m)
      else case table c key of
             Some ent \<Rightarrow>
               if now > ce_expiresAt ent
               then ((None, removeElement c ent), call (onMiss c) m)
               else ((Some (ce_value ent), c\<lparr> ll := MoveToFront (ll c) ent \<rparr>),
                     call (onHit c) m)
           | None \<Rightarrow> ((None, c), call (onMiss c) m))"

definition lruCache_Set ::
  "lruCache \<Rightarrow> time \<Rightarrow> cacheKey \<Rightarrow> Suggestion list \<Rightarrow> metrics \<Rightarrow> lruCache \<times> metrics" where
  "lruCache_Set c now key val m =
     (if capacity c = 0 then (c, m)
      else case table c key of
             Some ent0 \<Rightarrow>
               let ent = ent0\<lparr> ce_value := val, ce_expiresAt := now + ttl c \<rparr>
               in (c\<lparr> table := (table c)(key \<mapsto> ent), ll := MoveToFront (ll c) ent \<rparr>, m)
           | None \<Rightarrow>
               let ent = \<lparr> ce_key = key, ce_value = val, ce_expiresAt = now + ttl c \<rparr>;
                   c1 = c\<lparr> ll := ent # ll c, table := (table c)(key \<mapsto> ent) \<rparr>
               in if int (length (ll c1)) > capacity c1
                  then lruCache_removeOldest c1 m else (c1, m))"

text \<open>
  What a method returns and the cache it leaves do not depend on the counters (lemmas
  \<open>lruCache_Get_fst\<close>, \<open>lruCache_Set_fst\<close>, \<open>lruCache_removeOldest_fst\<close>): \<open>removeOldest\<close>,
  \<open>lru_Get\<close> and \<open>lru_Set\<close> name this part of the three methods.
\<close>

definition removeOldest :: "lruCache \<Rightarrow> lruCache" where
  "removeOldest c = fst (lruCache_removeOldest c no_events)"

definition lru_Get :: "lruCache \<Rightarrow> time \<Rightarrow> cacheKey \<Rightarrow> Suggestion list option \<times> lruCache" where
  "lru_Get c now key = fst (lruCache_Get c now key no_events)"

definition lru_Set :: "lruCache \<Rightarrow> time \<Rightarrow> cacheKey \<Rightarrow> Suggestion list \<Rightarrow> lruCache" where
  "lru_Set c now key val = fst (lruCache_Set c now key val no_events)"







section \<open>The binary heap of container/heap over \<open>minHeap\<close>\<close>

text \<open>
  \<open>minHeap\<close> is a slice of \<open>scored\<close> ordered by \<open>score\<close> (\<open>Len\<close>, \<open>Less\<close>, \<open>Swap\<close>, and
  \<open>Push\<close> and \<open>Pop\<close> at the end of the slice). \<open>heap.Init\<close>, \<open>heap.Push\<close> and \<open>heap.Pop\<close>
  belong to Go's standard library; they are written out here as the library has them, over
  the slice as a list.
\<close>

record scored =
  sc_id :: uid
  sc_common :: int
  sc_jaccard :: real
  sc_aa :: real
  sc_cos :: real
  sc_score :: real

definition Less :: "scored list \<Rightarrow> nat \<Rightarrow> nat \<Rightarrow> bool" where
  "Less hp i j = (sc_score (hp ! i) < sc_score (hp ! j))"

definition Swap :: "scored list \<Rightarrow> nat \<Rightarrow> nat \<Rightarrow> scored list" where
  "Swap hp i j = hp[i := hp ! j, j := hp ! i]"

text \<open>
  \<open>up\<close> and \<open>down\<close> are the two sifting routines of the standard library's heap, on which
  \<open>heap.Push\<close> and \<open>heap.Pop\<close> rest. In \<open>up\<close>, Go's \<open>(j-1)/2\<close> is 0 at \<open>j = 0\<close>, as the
  truncated subtraction is here.
\<close>

function up :: "scored list \<Rightarrow> nat \<Rightarrow> scored list" where
  "up hp j =
     (let i = (j - 1) div 2
      in if i = j \<or> \<not> Less hp j i then hp else up (Swap hp i j) i)"
  by pat_completeness auto
termination
  by (relation "measure (\<lambda>(hp, j). j)") auto

function down :: "scored list \<Rightarrow> nat \<Rightarrow> nat \<Rightarrow> scored list" where
  "down hp i n =
     (let j1 = 2 * i + 1
      in if j1 \<ge> n then hp
         else
           let j = (if j1 + 1 < n \<and> Less hp (j1 + 1) j1 then j1 + 1 else j1)
           in if \<not> Less hp j i then hp else down (Swap hp i j) j n)"
  by pat_completeness auto
termination
  by (relation "measure (\<lambda>(hp, i, n). n - i)") auto

definition heap_Init :: "scored list \<Rightarrow> scored list" where
  "heap_Init hp = fold (\<lambda>i a. down a i (length hp)) (rev [0..<length hp div 2]) hp"

definition heap_Push :: "scored list \<Rightarrow> scored \<Rightarrow> scored list" where
  "heap_Push hp x = (let hp1 = hp @ [x] in up hp1 (length hp1 - 1))"

text \<open>\<open>heap.Pop\<close> on an empty heap indexes out of range and panics: \<open>None\<close>.\<close>

definition heap_Pop :: "scored list \<Rightarrow> (scored \<times> scored list) option" where
  "heap_Pop hp =
     (if length hp = 0 then None
      else
        let n = length hp - 1;
            hp1 = Swap hp 0 n;
            hp2 = down hp1 0 n
        in Some (hp2 ! n, take n hp2))"


text \<open>
  The heap order on the array: every element is at least its parent, the element at
  \<open>(x - 1) div 2\<close>. \<open>except_up\<close> and \<open>except_down\<close> are the order with one element out of
  place, as it is while \<open>up\<close> and \<open>down\<close> run; \<open>small_child\<close> is the child \<open>down\<close> picks.
\<close>

definition parent :: "nat \<Rightarrow> nat" where
  "parent x = (x - 1) div 2"

definition is_heap :: "scored list \<Rightarrow> bool" where
  "is_heap hp \<longleftrightarrow>
     (\<forall>x<length hp. 0 < x \<longrightarrow> sc_score (hp ! parent x) \<le> sc_score (hp ! x))"

definition heap_upto :: "scored list \<Rightarrow> nat \<Rightarrow> bool" where
  "heap_upto hp n \<longleftrightarrow>
     (\<forall>x<n. 0 < x \<longrightarrow> sc_score (hp ! parent x) \<le> sc_score (hp ! x))"

definition except_up :: "scored list \<Rightarrow> nat \<Rightarrow> bool" where
  "except_up hp j \<longleftrightarrow>
     (\<forall>x<length hp. 0 < x \<longrightarrow>
        (x \<noteq> j \<longrightarrow> sc_score (hp ! parent x) \<le> sc_score (hp ! x)) \<and>
        (parent x = j \<longrightarrow> 0 < j \<longrightarrow> sc_score (hp ! parent j) \<le> sc_score (hp ! x)))"

definition except_down :: "scored list \<Rightarrow> nat \<Rightarrow> nat \<Rightarrow> bool" where
  "except_down hp i n \<longleftrightarrow>
     (\<forall>x<n. 0 < x \<longrightarrow>
        (parent x \<noteq> i \<longrightarrow> sc_score (hp ! parent x) \<le> sc_score (hp ! x)) \<and>
        (parent x = i \<longrightarrow> 0 < i \<longrightarrow> sc_score (hp ! parent i) \<le> sc_score (hp ! x)))"

definition small_child :: "scored list \<Rightarrow> nat \<Rightarrow> nat \<Rightarrow> nat" where
  "small_child hp i n =
     (if 2 * i + 1 + 1 < n \<and> Less hp (2 * i + 1 + 1) (2 * i + 1) then 2 * i + 1 + 1 else 2 * i + 1)"


section \<open>The PYMK service (package pymk)\<close>

fun intersect_loop :: "uid list \<Rightarrow> uid set \<Rightarrow> int \<Rightarrow> nat \<Rightarrow> nat" where
  "intersect_loop [] b capAt cnt = cnt"
| "intersect_loop (x # xs) b capAt cnt =
     (if x \<in> b then
        (if capAt > 0 \<and> int (cnt + 1) \<ge> capAt then cnt + 1
         else intersect_loop xs b capAt (cnt + 1))
      else intersect_loop xs b capAt cnt)"

definition intersectCount :: "order \<Rightarrow> uid set \<Rightarrow> uid set \<Rightarrow> int \<Rightarrow> nat" where
  "intersectCount ord a b capAt =
     (let (a1, b1) = (if card a > card b then (b, a) else (a, b))
      in intersect_loop (ord a1) b1 capAt 0)"

definition unionSize :: "order \<Rightarrow> uid set \<Rightarrow> uid set \<Rightarrow> int" where
  "unionSize ord a b =
     (let inter = intersectCount ord a b 0
      in int (card a) + int (card b) - int inter)"

definition toStdSet :: "uid list \<Rightarrow> uid set" where
  "toStdSet ids = (if length ids = 0 then {} else set ids)"

fun cosine_loop :: "real list \<Rightarrow> real list \<Rightarrow> real \<times> real \<times> real \<Rightarrow> real \<times> real \<times> real" where
  "cosine_loop (av # a) (bv # b) (dot, na, nb) =
     cosine_loop a b (dot + av * bv, na + av * av, nb + bv * bv)"
| "cosine_loop a b acc = acc"

definition cosine :: "real list \<Rightarrow> real list \<Rightarrow> real" where
  "cosine a b =
     (if length a = 0 \<or> length a \<noteq> length b then 0
      else
        let (dot, na, nb) = cosine_loop a b (0, 0, 0)
        in if na = 0 \<or> nb = 0 then 0
           else
             let res = dot / (sqrt na * sqrt nb)
             in if res < 0 then 0 else res)"

record PYMKConfig =
  MaxExpandPerNeighbor :: int
  MaxCandidates :: int
  WCommon :: real
  WJaccard :: real
  WAA :: real
  WCosine :: real
  CacheSize :: int
  CacheTTL :: int

text \<open>The embedding store of a service is an interface value and may be \<open>nil\<close>: \<open>None\<close>.\<close>

record Service =
  svc_G :: MemGraph
  svc_E :: "MemEmbeds option"
  svc_C :: PYMKConfig
  svc_cache :: lruCache

text \<open>\<open>NewService\<close> builds the cache and installs the three callbacks that count its events.\<close>

definition NewService :: "MemGraph \<Rightarrow> MemEmbeds option \<Rightarrow> PYMKConfig \<Rightarrow> Service" where
  "NewService g e cfg =
     \<lparr> svc_G = g, svc_E = e, svc_C = cfg,
       svc_cache = (newLRU (CacheSize cfg) (CacheTTL cfg))
                     \<lparr> onHit := Some (PYMKCache_Inc ''hit''),
                       onMiss := Some (PYMKCache_Inc ''miss''),
                       onEvict := Some (PYMKCache_Inc ''evict'') \<rparr> \<rparr>"

record candStats =
  cs_common :: int
  cs_aa :: real

type_synonym stats = "uid \<rightharpoonup> candStats"

definition aaWeight :: "nat \<Rightarrow> real" where
  "aaWeight degN = (if degN > 0 then 1 / ln (real (1 + degN) + 1 / 10 ^ 9) else 0)"

definition excluded :: "uid set option \<Rightarrow> uid \<Rightarrow> bool" where
  "excluded exclude c = (case exclude of None \<Rightarrow> False | Some ex \<Rightarrow> c \<in> ex)"

text \<open>The inner loop of \<open>expand\<close>, over the (truncated) followees of one neighbour.\<close>

fun expand_inner ::
  "uid \<Rightarrow> uid set \<Rightarrow> uid set option \<Rightarrow> real \<Rightarrow> uid list \<Rightarrow> stats \<Rightarrow> stats" where
  "expand_inner u oneHop exclude w [] st = st"
| "expand_inner u oneHop exclude w (c # cs) st =
     (if c = u then expand_inner u oneHop exclude w cs st
      else if c \<in> oneHop then expand_inner u oneHop exclude w cs st
      else if excluded exclude c then expand_inner u oneHop exclude w cs st
      else
        let cs0 = (case st c of None \<Rightarrow> \<lparr> cs_common = 0, cs_aa = 0 \<rparr> | Some x \<Rightarrow> x);
            cs1 = cs0\<lparr> cs_common := cs_common cs0 + 1, cs_aa := cs_aa cs0 + w \<rparr>
        in expand_inner u oneHop exclude w cs (st(c \<mapsto> cs1)))"

definition capped :: "PYMKConfig \<Rightarrow> uid list \<Rightarrow> uid list" where
  "capped cfg neighbors =
     (if MaxExpandPerNeighbor cfg > 0 \<and> int (length neighbors) > MaxExpandPerNeighbor cfg
      then take (nat (MaxExpandPerNeighbor cfg)) neighbors
      else neighbors)"

text \<open>
  The outer loop of \<open>expand\<close>, over the neighbours \<open>src\<close> in their iteration order; \<open>p\<close>
  tells which of the two calls of \<open>expand\<close> it is.
\<close>

fun expand ::
  "orders \<Rightarrow> nat \<Rightarrow> MemGraph \<Rightarrow> PYMKConfig \<Rightarrow> uid \<Rightarrow> uid set \<Rightarrow> uid set option
     \<Rightarrow> uid list \<Rightarrow> stats \<Rightarrow> stats" where
  "expand os p g cfg u oneHop exclude [] st = st"
| "expand os p g cfg u oneHop exclude (n # ns) st =
     (let neighbors = capped cfg (Following (os (SiteNeighbors p n)) g n);
          degN = DegreeOut g n + DegreeIn g n;
          w = aaWeight degN
      in expand os p g cfg u oneHop exclude ns (expand_inner u oneHop exclude w neighbors st))"

definition features ::
  "orders \<Rightarrow> MemGraph \<Rightarrow> MemEmbeds option \<Rightarrow> real list option \<Rightarrow> uid set \<Rightarrow> uid
     \<Rightarrow> candStats \<Rightarrow> scored" where
  "features os g emb uvec outU ident st =
     (let outC = toStdSet (Following (os (SiteCandidate ident)) g ident);
          jacc = (if card outU > 0 \<or> card outC > 0
                  then real (intersectCount (os (SiteInter ident)) outU outC 0)
                         / (real_of_int (unionSize (os (SiteUnion ident)) outU outC) + 1 / 10 ^ 9)
                  else 0);
          cs = (case uvec of
                  None \<Rightarrow> 0
                | Some a \<Rightarrow>
                    (case emb of
                       None \<Rightarrow> 0
                     | Some e \<Rightarrow> (case embeds_Get e ident of Some v \<Rightarrow> cosine a v | None \<Rightarrow> 0)))
      in \<lparr> sc_id = ident, sc_common = cs_common st, sc_jaccard = jacc, sc_aa = cs_aa st,
           sc_cos = cs, sc_score = 0 \<rparr>)"

definition maxOf :: "('a \<Rightarrow> 'b::{zero,linorder}) \<Rightarrow> 'a list \<Rightarrow> 'b" where
  "maxOf f out = fold (\<lambda>sc m. if f sc > m then f sc else m) out 0"

definition normalise :: "real \<Rightarrow> real \<Rightarrow> real" where
  "normalise x mx = (if mx > 0 then x / mx else 0)"

definition nCommon :: "scored list \<Rightarrow> scored \<Rightarrow> real" where
  "nCommon out sc = normalise (real_of_int (sc_common sc)) (real_of_int (maxOf sc_common out))"

definition nJ :: "scored list \<Rightarrow> scored \<Rightarrow> real" where
  "nJ out sc = normalise (sc_jaccard sc) (maxOf sc_jaccard out)"

definition nAA :: "scored list \<Rightarrow> scored \<Rightarrow> real" where
  "nAA out sc = normalise (sc_aa sc) (maxOf sc_aa out)"

definition nCos :: "scored list \<Rightarrow> scored \<Rightarrow> real" where
  "nCos out sc = normalise (sc_cos sc) (maxOf sc_cos out)"

definition weigh :: "PYMKConfig \<Rightarrow> scored list \<Rightarrow> scored \<Rightarrow> scored" where
  "weigh cfg out sc =
     sc\<lparr> sc_score := WCommon cfg * nCommon out sc + WJaccard cfg * nJ out sc
                       + WAA cfg * nAA out sc + WCosine cfg * nCos out sc \<rparr>"

text \<open>
  Top-K: the loop over the scored candidates. Reading \<open>(*h)[0]\<close> of an empty heap panics,
  as popping it does.
\<close>

fun topk_loop :: "scored list \<Rightarrow> int \<Rightarrow> scored list \<Rightarrow> scored list option" where
  "topk_loop [] k hp = Some hp"
| "topk_loop (x # xs) k hp =
     (if int (length hp) < k then topk_loop xs k (heap_Push hp x)
      else
        (case hp of
           [] \<Rightarrow> None
         | h0 # _ \<Rightarrow>
             if sc_score x > sc_score h0 then
               (case heap_Pop hp of
                  None \<Rightarrow> None
                | Some (_, hp1) \<Rightarrow> topk_loop xs k (heap_Push hp1 x))
             else topk_loop xs k hp))"

text \<open>
  The result loop pops \<open>h.Len()\<close> times and fills \<open>res\<close> from its last index down:
  \<open>drain\<close> is the sequence of popped items, and \<open>res\<close> is that sequence reversed.
\<close>

fun drain :: "nat \<Rightarrow> scored list \<Rightarrow> scored list option" where
  "drain 0 hp = Some []"
| "drain (Suc n) hp =
     (case heap_Pop hp of
        None \<Rightarrow> None
      | Some (it, hp1) \<Rightarrow> (case drain n hp1 of None \<Rightarrow> None | Some its \<Rightarrow> Some (it # its)))"

definition toSuggestion :: "scored \<Rightarrow> Suggestion" where
  "toSuggestion it =
     \<lparr> UserID = sc_id it, Score = sc_score it, CommonNeighbors = sc_common it,
       Jaccard = sc_jaccard it, AdamicAdar = sc_aa it, Cosine = sc_cos it \<rparr>"

text \<open>Steps 1 and 2 of \<open>PYMK\<close>: the statistics gathered by the two expansions.\<close>

definition gather :: "orders \<Rightarrow> Service \<Rightarrow> uid \<Rightarrow> uid set option \<Rightarrow> stats" where
  "gather os s u exclude =
     (let outU = toStdSet (Following (os SiteFollowing) (svc_G s) u);
          inU = toStdSet (Followers (os SiteFollowers) (svc_G s) u);
          oneHop = outU \<union> inU;
          st1 = expand os 1 (svc_G s) (svc_C s) u oneHop exclude (os (SiteRange 1) outU)
                  Map.empty
      in expand os 2 (svc_G s) (svc_C s) u oneHop exclude (os (SiteRange 2) inU) st1)"

text \<open>Step 3: the scored candidates, in the iteration order of the statistics map.\<close>

definition candidates :: "orders \<Rightarrow> Service \<Rightarrow> uid \<Rightarrow> stats \<Rightarrow> scored list" where
  "candidates os s u st =
     (let outU = toStdSet (Following (os SiteFollowing) (svc_G s) u);
          uvec = (case svc_E s of None \<Rightarrow> None | Some e \<Rightarrow> embeds_Get e u)
      in List.map_filter
           (\<lambda>ident. map_option (features os (svc_G s) (svc_E s) uvec outU ident) (st ident))
           (os SiteStats (dom st)))"

text \<open>Step 4: every candidate weighed against the maxima over all candidates.\<close>

definition scoreAll :: "orders \<Rightarrow> Service \<Rightarrow> uid \<Rightarrow> stats \<Rightarrow> scored list" where
  "scoreAll os s u st =
     (let out0 = candidates os s u st
      in map (weigh (svc_C s) out0) out0)"

text \<open>Step 5: the heap is filled and then emptied into \<open>res\<close>. \<open>None\<close> is a panic.\<close>

definition topK :: "scored list \<Rightarrow> int \<Rightarrow> Suggestion list option" where
  "topK out k =
     (case topk_loop out k (heap_Init []) of
        None \<Rightarrow> None
      | Some hp \<Rightarrow>
          (case drain (length hp) hp of
             None \<Rightarrow> None
           | Some its \<Rightarrow> Some (rev (map toSuggestion its))))"

text \<open>Steps 1 to 5 of \<open>PYMK\<close>, what is computed on a cache miss, for \<open>k\<close> already normalised.\<close>

definition PYMK_compute ::
  "orders \<Rightarrow> Service \<Rightarrow> uid \<Rightarrow> int \<Rightarrow> uid set option \<Rightarrow> Suggestion list option" where
  "PYMK_compute os s u k exclude =
     (let st = gather os s u exclude
      in if card (dom st) = 0 then Some []
         else topK (scoreAll os s u st) k)"

definition cache_key :: "Service \<Rightarrow> uid \<Rightarrow> int \<Rightarrow> cacheKey" where
  "cache_key s u k0 =
     (let k = (if k0 \<le> 0 then 20 else k0);
          epoch = UserEpoch (svc_G s) u
      in \<lparr> ck_user = u, ck_k = k, ck_epoch = epoch \<rparr>)"

text \<open>
  The method \<open>PYMK\<close> of \<open>Service\<close>. It reads the clock twice, in \<open>Get\<close> and in \<open>Set\<close>:
  \<open>t_get\<close> and \<open>t_set\<close>. It takes the counters as they are before the call; the result is
  the returned list, the service afterwards and the counters afterwards. \<open>None\<close> is a panic.
\<close>

definition Service_PYMK ::
  "orders \<Rightarrow> Service \<Rightarrow> time \<Rightarrow> time \<Rightarrow> uid \<Rightarrow> int \<Rightarrow> uid set option \<Rightarrow> metrics
     \<Rightarrow> ((Suggestion list \<times> Service) \<times> metrics) option" where
  "Service_PYMK os s t_get t_set u k0 exclude m =
     (let key = cache_key s u k0;
          ((got, c1), m1) = lruCache_Get (svc_cache s) t_get key m
      in case got of
           Some v \<Rightarrow> Some ((v, s\<lparr> svc_cache := c1 \<rparr>), m1)
         | None \<Rightarrow>
             (case PYMK_compute os s u (ck_k key) exclude of
                None \<Rightarrow> None
              | Some res \<Rightarrow>
                  let (c2, m2) = lruCache_Set c1 t_set key res m1
                  in Some ((res, s\<lparr> svc_cache := c2 \<rparr>), m2)))"

text \<open>
  The list \<open>PYMK\<close> returns and the service it leaves do not depend on the counters (lemma
  \<open>Service_PYMK_fst\<close>); \<open>PYMK\<close> names this part of the method.
\<close>

definition PYMK ::
  "orders \<Rightarrow> Service \<Rightarrow> time \<Rightarrow> time \<Rightarrow> uid \<Rightarrow> int \<Rightarrow> uid set option
     \<Rightarrow> (Suggestion list \<times> Service) option" where
  "PYMK os s t_get t_set u k0 exclude =
     map_option fst (Service_PYMK os s t_get t_set u k0 exclude no_events)"

text \<open>
  Notions for stating what the expansion computes. A user is \<open>eligible\<close> when none of the
  three tests of the inner loop skips it; \<open>via\<close> lists the neighbours of \<open>ns\<close>, in order,
  whose followee list, as fetched and capped in the \<open>p\<close>-th call of \<open>expand\<close>, holds \<open>c\<close>;
  \<open>common_of\<close> and \<open>aa_of\<close> read the statistics of a user, 0 when there are none.
\<close>

definition eligible :: "uid \<Rightarrow> uid set \<Rightarrow> uid set option \<Rightarrow> uid \<Rightarrow> bool" where
  "eligible u oneHop exclude c \<longleftrightarrow> c \<noteq> u \<and> c \<notin> oneHop \<and> \<not> excluded exclude c"

definition via ::
  "orders \<Rightarrow> nat \<Rightarrow> MemGraph \<Rightarrow> PYMKConfig \<Rightarrow> uid \<Rightarrow> uid list \<Rightarrow> uid list" where
  "via os p g cfg c ns =
     filter (\<lambda>n. c \<in> set (capped cfg (Following (os (SiteNeighbors p n)) g n))) ns"

definition common_of :: "stats \<Rightarrow> uid \<Rightarrow> int" where
  "common_of st c = (case st c of None \<Rightarrow> 0 | Some x \<Rightarrow> cs_common x)"

definition aa_of :: "stats \<Rightarrow> uid \<Rightarrow> real" where
  "aa_of st c = (case st c of None \<Rightarrow> 0 | Some x \<Rightarrow> cs_aa x)"

definition the_excluded :: "uid set option \<Rightarrow> uid set" where
  "the_excluded exclude = (case exclude of None \<Rightarrow> {} | Some ex \<Rightarrow> ex)"

section \<open>Concrete scenarios\<close>

text \<open>The configuration set in \<open>main\<close> (the TTL of two minutes in nanoseconds).\<close>

definition main_cfg :: PYMKConfig where
  "main_cfg = \<lparr> MaxExpandPerNeighbor = 200, MaxCandidates = 20000,
                 WCommon = 1, WJaccard = 6 / 10, WAA = 8 / 10, WCosine = 1,
                 CacheSize = 100000, CacheTTL = 120000000000 \<rparr>"

text \<open>The triangle of the specification: 1 follows 2 and 3, and both follow 4.\<close>

definition tri_graph :: MemGraph where
  "tri_graph = run NewMemGraph [OpFollow 1 2, OpFollow 1 3, OpFollow 2 4, OpFollow 3 4]"

definition tri_svc :: Service where
  "tri_svc = NewService tri_graph None main_cfg"

text \<open>Users 1 and 2 follow each other, and 2 follows 4.\<close>

definition mutual_graph :: MemGraph where
  "mutual_graph = run NewMemGraph [OpFollow 1 2, OpFollow 2 1, OpFollow 2 4]"

definition mutual_svc :: Service where
  "mutual_svc = NewService mutual_graph None main_cfg"

text \<open>
  A fan: 1 follows 2 and 3, both follow 4, and 2 also follows 5. The configuration is that
  of \<open>main\<close> with the weight 1 on the common neighbours and 0 on the other features.
\<close>

definition fan_cfg :: PYMKConfig where
  "fan_cfg = \<lparr> MaxExpandPerNeighbor = 200, MaxCandidates = 20000,
                WCommon = 1, WJaccard = 0, WAA = 0, WCosine = 0,
                CacheSize = 100000, CacheTTL = 120000000000 \<rparr>"

definition fan_graph :: MemGraph where
  "fan_graph = run NewMemGraph
                 [OpFollow 1 2, OpFollow 1 3, OpFollow 2 4, OpFollow 3 4, OpFollow 2 5]"

definition fan_svc :: Service where
  "fan_svc = NewService fan_graph None fan_cfg"

text \<open>
  Users 1 and 2 follow each other, and 2 also follows 4 and 5; the fan-out cap is 1. In
  \<open>skew_orders\<close> the followees of 2 come in descending order when fetched in the second
  call of \<open>expand\<close>, and every other iteration is in ascending order.
\<close>

definition skew_cfg :: PYMKConfig where
  "skew_cfg = \<lparr> MaxExpandPerNeighbor = 1, MaxCandidates = 20000,
                 WCommon = 1, WJaccard = 6 / 10, WAA = 8 / 10, WCosine = 1,
                 CacheSize = 100000, CacheTTL = 120000000000 \<rparr>"

definition skew_graph :: MemGraph where
  "skew_graph = run NewMemGraph [OpFollow 1 2, OpFollow 2 1, OpFollow 2 4, OpFollow 2 5]"

definition skew_svc :: Service where
  "skew_svc = NewService skew_graph None skew_cfg"

definition skew_orders :: orders where
  "skew_orders t S = (if t = SiteNeighbors 2 2 then rev (key_order S) else key_order S)"

section \<open>Properties of the follow graph\<close>

lemma epochs_set_following: "epochs (set_following g u s) = epochs g"
  by (simp add: set_following_def)

lemma epochs_set_followers: "epochs (set_followers g u s) = epochs g"
  by (simp add: set_followers_def)

lemma raw_following_set_following:
  "following (ss (set_following g u s) (h w)) w = (if w = u then s else following (ss g (h w)) w)"
  by (simp add: set_following_def)

lemma raw_followers_set_following:
  "followers (ss (set_following g u s) (h w)) w = followers (ss g (h w)) w"
  by (simp add: set_following_def)

lemma raw_following_set_followers:
  "following (ss (set_followers g u s) (h w)) w = following (ss g (h w)) w"
  by (simp add: set_followers_def)

lemma raw_followers_set_followers:
  "followers (ss (set_followers g u s) (h w)) w = (if w = u then s else followers (ss g (h w)) w)"
  by (simp add: set_followers_def)

lemma ss_TouchUsers: "ss (TouchUsers g us) = ss g"
  by (induction us arbitrary: g) (simp_all add: Let_def)

lemma UserEpoch_TouchUsers:
  "UserEpoch (TouchUsers g us) w = UserEpoch g w + of_nat (count_list us w)"
  by (induction us arbitrary: g) (simp_all add: Let_def UserEpoch_def)

lemmas raw_simps = raw_following_set_following raw_followers_set_following
  raw_following_set_followers raw_followers_set_followers ss_TouchUsers
  epochs_set_following epochs_set_followers

lemma fst_Follow: "fst (Follow g u v) = (u \<noteq> v \<and> v \<notin> following_set g u)"
  by (simp add: Follow_def following_set_def Let_def split: option.splits prod.splits)

lemma following_Follow:
  "following (ss (snd (Follow g u v)) (h w)) w =
     (if u \<noteq> v \<and> w = u then Some (insert v (following_set g u)) else following (ss g (h w)) w)"
  by (auto simp add: Follow_def following_set_def Let_def raw_simps insert_absorb split: option.splits prod.splits)

lemma followers_Follow:
  "followers (ss (snd (Follow g u v)) (h w)) w =
     (if u \<noteq> v \<and> v \<notin> following_set g u \<and> w = v then Some (insert u (followers_set g v))
      else followers (ss g (h w)) w)"
  by (auto simp add: Follow_def following_set_def followers_set_def Let_def raw_simps split: option.splits prod.splits)


lemma fst_Unfollow: "fst (Unfollow g u v) = (v \<in> following_set g u)"
  by (simp add: Unfollow_def following_set_def Let_def split: option.splits)

lemma following_Unfollow:
  "following (ss (snd (Unfollow g u v)) (h w)) w =
     (if v \<in> following_set g u \<and> w = u
      then (if following_set g u - {v} = {} then None else Some (following_set g u - {v}))
      else following (ss g (h w)) w)"
  by (auto simp add: Unfollow_def following_set_def Let_def raw_simps split: option.splits)

lemma followers_Unfollow:
  "followers (ss (snd (Unfollow g u v)) (h w)) w =
     (if v \<in> following_set g u \<and> w = v
      then (case followers (ss g (h v)) v of None \<Rightarrow> None
            | Some r \<Rightarrow> if r - {u} = {} then None else Some (r - {u}))
      else followers (ss g (h w)) w)"
  by (auto simp add: Unfollow_def following_set_def Let_def raw_simps split: option.splits)

lemma HasEdge_iff: "HasEdge g u v = (v \<in> following_set g u)"
  by (simp add: HasEdge_def following_set_def split: option.splits)

lemma following_set_Follow:
  "following_set (snd (Follow g u v)) w =
     (if u \<noteq> v \<and> w = u then insert v (following_set g u) else following_set g w)"
  unfolding following_set_def[of "snd (Follow g u v)"] following_Follow
  by (simp add: following_set_def)

lemma followers_set_Follow:
  "followers_set (snd (Follow g u v)) w =
     (if u \<noteq> v \<and> v \<notin> following_set g u \<and> w = v then insert u (followers_set g v)
      else followers_set g w)"
  unfolding followers_set_def[of "snd (Follow g u v)"] followers_Follow
  by (simp add: followers_set_def)

lemma following_set_Unfollow:
  "following_set (snd (Unfollow g u v)) w =
     (if w = u then following_set g u - {v} else following_set g w)"
  unfolding following_set_def[of "snd (Unfollow g u v)"] following_Unfollow
  by (auto simp add: following_set_def split: option.splits)

lemma followers_set_Unfollow:
  "followers_set (snd (Unfollow g u v)) w =
     (if v \<in> following_set g u \<and> w = v then followers_set g v - {u} else followers_set g w)"
  unfolding followers_set_def[of "snd (Unfollow g u v)"] followers_Unfollow
  by (auto simp add: followers_set_def split: option.splits)

lemma following_set_TouchUsers: "following_set (TouchUsers g us) w = following_set g w"
  by (simp add: following_set_def ss_TouchUsers)

lemma followers_set_TouchUsers: "followers_set (TouchUsers g us) w = followers_set g w"
  by (simp add: followers_set_def ss_TouchUsers)

lemmas adj_simps = following_set_Follow followers_set_Follow following_set_Unfollow
  followers_set_Unfollow following_set_TouchUsers followers_set_TouchUsers

lemma graph_inv_new: "graph_inv NewMemGraph"
  by (simp add: graph_inv_def NewMemGraph_def following_set_def followers_set_def)

lemma graph_inv_Follow:
  assumes "graph_inv g"
  shows "graph_inv (snd (Follow g u v))"
proof -
  let ?g = "snd (Follow g u v)"
  have bi: "\<And>a b. b \<in> following_set g a \<longleftrightarrow> a \<in> followers_set g b"
    and irr: "\<And>a. a \<notin> following_set g a"
    and ne1: "\<And>a. following (ss g (h a)) a \<noteq> Some {}"
    and ne2: "\<And>a. followers (ss g (h a)) a \<noteq> Some {}"
    using assms unfolding graph_inv_def by blast+
  have "\<And>a b. b \<in> following_set ?g a \<longleftrightarrow> a \<in> followers_set ?g b"
    using bi by (auto simp add: adj_simps)
  moreover have "\<And>a. a \<notin> following_set ?g a"
    using irr by (simp add: adj_simps)
  moreover have "\<And>a. following (ss ?g (h a)) a \<noteq> Some {}"
    using ne1 by (simp add: following_Follow)
  moreover have "\<And>a. followers (ss ?g (h a)) a \<noteq> Some {}"
    using ne2 by (simp add: followers_Follow)
  ultimately show ?thesis by (simp add: graph_inv_def)
qed

lemma graph_inv_Unfollow:
  assumes "graph_inv g"
  shows "graph_inv (snd (Unfollow g u v))"
proof -
  let ?g = "snd (Unfollow g u v)"
  have bi: "\<And>a b. b \<in> following_set g a \<longleftrightarrow> a \<in> followers_set g b"
    and irr: "\<And>a. a \<notin> following_set g a"
    and ne1: "\<And>a. following (ss g (h a)) a \<noteq> Some {}"
    and ne2: "\<And>a. followers (ss g (h a)) a \<noteq> Some {}"
    using assms unfolding graph_inv_def by blast+
  have "\<And>a b. b \<in> following_set ?g a \<longleftrightarrow> a \<in> followers_set ?g b"
    using bi by (auto simp add: adj_simps)
  moreover have "\<And>a. a \<notin> following_set ?g a"
    using irr by (simp add: adj_simps)
  moreover have "\<And>a. following (ss ?g (h a)) a \<noteq> Some {}"
    using ne1 by (simp add: following_Unfollow)
  moreover have "\<And>a. followers (ss ?g (h a)) a \<noteq> Some {}"
    using ne2 by (simp add: followers_Unfollow split: option.splits)
  ultimately show ?thesis by (simp add: graph_inv_def)
qed

lemma graph_inv_TouchUsers: "graph_inv g \<Longrightarrow> graph_inv (TouchUsers g us)"
  unfolding graph_inv_def adj_simps ss_TouchUsers by assumption

lemma reach_inv: "reach g \<Longrightarrow> graph_inv g"
  by (induction rule: reach.induct)
     (simp_all add: graph_inv_new graph_inv_Follow graph_inv_Unfollow graph_inv_TouchUsers)

lemma iter_ok_set: "iter_ok ord \<Longrightarrow> set (ord S) = S"
  by (simp add: iter_ok_def)

lemma iter_ok_distinct: "iter_ok ord \<Longrightarrow> distinct (ord S)"
  by (simp add: iter_ok_def)

lemma iter_ok_key_order: "iter_ok key_order"
  by (simp add: iter_ok_def key_order_def)

text \<open>
  Claim C1 (bidirectional adjacency). In every graph reachable from the empty graph by
  \<open>Follow\<close>, \<open>Unfollow\<close> (and \<open>TouchUsers\<close>), whatever the iteration order of the
  maps: \<open>v\<close> is listed by \<open>Following u\<close> exactly when \<open>u\<close> is listed by \<open>Followers v\<close>, and
  \<open>HasEdge u v\<close> agrees with the membership of \<open>u\<close> in \<open>Followers v\<close>.
\<close>

theorem bidirectional_adjacency:
  assumes "reach g" and "iter_ok ord"
  shows "(v \<in> set (Following ord g u) \<longleftrightarrow> u \<in> set (Followers ord g v)) \<and>
         (HasEdge g u v \<longleftrightarrow> u \<in> set (Followers ord g v))"
proof -
  have "v \<in> following_set g u \<longleftrightarrow> u \<in> followers_set g v"
    using reach_inv[OF assms(1)] unfolding graph_inv_def by blast
  then show ?thesis
    by (simp add: Following_def Followers_def iter_ok_set[OF assms(2)] HasEdge_iff)
qed

text \<open>
  Claim C5 (Follow contract and no-op atomicity). In every state, \<open>Follow u v\<close> returns
  true exactly when \<open>u \<noteq> v\<close> and the edge was absent; when it returns false the whole graph
  (adjacency maps, hence all degrees, and all epochs) is the one before the call. \<open>Follow\<close>
  has no failing path: it is a total function whose two shard indices are within the array.
\<close>

theorem Follow_contract:
  "(fst (Follow g u v) \<longleftrightarrow> u \<noteq> v \<and> \<not> HasEdge g u v) \<and>
   (\<not> fst (Follow g u v) \<longrightarrow> snd (Follow g u v) = g) \<and>
   h u < shards \<and> h v < shards"
proof -
  have "\<not> fst (Follow g u v) \<Longrightarrow> snd (Follow g u v) = g"
    by (auto simp add: Follow_def Let_def split: option.splits prod.splits if_splits)
  then show ?thesis
    by (simp add: fst_Follow HasEdge_iff h_def shards_def)
qed

lemma following_set_new: "following_set NewMemGraph w = {}"
  by (simp add: following_set_def NewMemGraph_def)

lemma followers_set_new: "followers_set NewMemGraph w = {}"
  by (simp add: followers_set_def NewMemGraph_def)

theorem Follow_contract_witness:
  "fst (Follow NewMemGraph 1 2) \<and>
   \<not> fst (Follow (snd (Follow NewMemGraph 1 2)) 1 2) \<and>
   snd (Follow (snd (Follow NewMemGraph 1 2)) 1 2) = snd (Follow NewMemGraph 1 2) \<and>
   \<not> fst (Follow NewMemGraph 7 7) \<and> snd (Follow NewMemGraph 7 7) = NewMemGraph"
  using Follow_contract[of NewMemGraph 1 2] Follow_contract[of "snd (Follow NewMemGraph 1 2)" 1 2]
    Follow_contract[of NewMemGraph 7 7]
  by (simp add: HasEdge_iff adj_simps following_set_new)

theorem bidirectional_adjacency_witness:
  "reach (snd (Follow NewMemGraph 1 2)) \<and> iter_ok key_order \<and>
   HasEdge (snd (Follow NewMemGraph 1 2)) 1 2 \<and>
   1 \<in> set (Followers key_order (snd (Follow NewMemGraph 1 2)) 2) \<and>
   2 \<in> set (Following key_order (snd (Follow NewMemGraph 1 2)) 1)"
proof -
  have r: "reach (snd (Follow NewMemGraph 1 2))"
    by (rule reach_follow[OF reach_new])
  have e: "HasEdge (snd (Follow NewMemGraph 1 2)) 1 2"
    by (simp add: HasEdge_iff adj_simps)
  show ?thesis
    using bidirectional_adjacency[OF r iter_ok_key_order, of 2 1] r e iter_ok_key_order
    by simp
qed

text \<open>
  Claim C6 as stated covers every pair with \<open>HasEdge u v\<close> false, hence also \<open>u = v\<close>;
  there \<open>Follow\<close> is rejected by its first test and both calls return false.
\<close>

theorem Unfollow_inverts_Follow_counterexample:
  "\<not> HasEdge NewMemGraph 1 1 \<and> \<not> fst (Follow NewMemGraph 1 1) \<and>
   \<not> fst (Unfollow (snd (Follow NewMemGraph 1 1)) 1 1)"
  by (simp add: HasEdge_iff fst_Follow fst_Unfollow adj_simps following_set_new)

lemma card_restore: "x \<notin> S \<Longrightarrow> card (insert x S - {x}) = card S"
  by simp

text \<open>
  Claim C6 (Unfollow inverts Follow), for distinct users. In a reachable graph without the
  edge \<open>(u, v)\<close>, \<open>u \<noteq> v\<close>: \<open>Follow u v\<close> and then \<open>Unfollow u v\<close> both return true,
  afterwards the edge is absent, every user's \<open>DegreeOut\<close> and \<open>DegreeIn\<close> are as before the
  two calls, and every user's entries of the two adjacency maps are the ones before (an
  entry that was missing is missing again, not an empty set).
\<close>

theorem Unfollow_inverts_Follow:
  assumes "reach g" and "u \<noteq> v" and "\<not> HasEdge g u v"
  shows "fst (Follow g u v) \<and>
         fst (Unfollow (snd (Follow g u v)) u v) \<and>
         \<not> HasEdge (snd (Unfollow (snd (Follow g u v)) u v)) u v \<and>
         (\<forall>w. DegreeOut (snd (Unfollow (snd (Follow g u v)) u v)) w = DegreeOut g w \<and>
              DegreeIn (snd (Unfollow (snd (Follow g u v)) u v)) w = DegreeIn g w \<and>
              following (ss (snd (Unfollow (snd (Follow g u v)) u v)) (h w)) w
                = following (ss g (h w)) w \<and>
              followers (ss (snd (Unfollow (snd (Follow g u v)) u v)) (h w)) w
                = followers (ss g (h w)) w)"
proof -
  let ?g1 = "snd (Follow g u v)"
  let ?g2 = "snd (Unfollow ?g1 u v)"
  have inv: "graph_inv g" by (rule reach_inv[OF assms(1)])
  have nv: "v \<notin> following_set g u" using assms(3) by (simp add: HasEdge_iff)
  have nu: "u \<notin> followers_set g v" using inv nv unfolding graph_inv_def by blast
  have ne1: "following (ss g (h u)) u \<noteq> Some {}"
    and ne2: "followers (ss g (h v)) v \<noteq> Some {}"
    using inv unfolding graph_inv_def by blast+
  have a: "fst (Follow g u v)" using assms(2) nv by (simp add: fst_Follow)
  have b: "fst (Unfollow ?g1 u v)" using assms(2) by (simp add: fst_Unfollow adj_simps)
  have c: "\<not> HasEdge ?g2 u v" by (simp add: HasEdge_iff adj_simps)
  have fo: "following_set ?g2 w = following_set g w" for w
    using assms(2) nv by (simp add: adj_simps)
  have fi: "followers_set ?g2 w = followers_set g w" for w
    using assms(2) nv nu by (simp add: adj_simps)
  have ro: "following (ss ?g2 (h w)) w = following (ss g (h w)) w" for w
    using assms(2) nv ne1
    by (auto simp add: following_Unfollow following_Follow adj_simps following_set_def
          split: option.splits)
  have ri: "followers (ss ?g2 (h w)) w = followers (ss g (h w)) w" for w
    using assms(2) nv nu ne2
    by (auto simp add: followers_Unfollow followers_Follow adj_simps followers_set_def
          split: option.splits)
  show ?thesis
    using a b c by (simp add: DegreeOut_def DegreeIn_def fo fi ro ri)
qed

theorem Unfollow_inverts_Follow_witness:
  "reach NewMemGraph \<and> (1::uid) \<noteq> 2 \<and> \<not> HasEdge NewMemGraph 1 2 \<and>
   fst (Follow NewMemGraph 1 2) \<and>
   fst (Unfollow (snd (Follow NewMemGraph 1 2)) 1 2) \<and>
   \<not> HasEdge (snd (Unfollow (snd (Follow NewMemGraph 1 2)) 1 2)) 1 2 \<and>
   DegreeOut (snd (Unfollow (snd (Follow NewMemGraph 1 2)) 1 2)) 1 = 0 \<and>
   DegreeIn (snd (Unfollow (snd (Follow NewMemGraph 1 2)) 1 2)) 2 = 0"
proof -
  have e: "\<not> HasEdge NewMemGraph 1 2" and d: "(1::uid) \<noteq> 2"
    by (simp_all add: HasEdge_iff following_set_new)
  have z: "DegreeOut NewMemGraph 1 = 0" "DegreeIn NewMemGraph 2 = 0"
    by (simp_all add: DegreeOut_def DegreeIn_def following_set_new followers_set_new)
  show ?thesis
    using Unfollow_inverts_Follow[OF reach_new d e] e z reach_new by simp
qed

lemma UserEpoch_set_following: "UserEpoch (set_following g u s) w = UserEpoch g w"
  by (simp add: UserEpoch_def epochs_set_following)

lemma UserEpoch_set_followers: "UserEpoch (set_followers g u s) w = UserEpoch g w"
  by (simp add: UserEpoch_def epochs_set_followers)

lemma Unfollow_false_same: "\<not> fst (Unfollow g u v) \<Longrightarrow> snd (Unfollow g u v) = g"
  by (auto simp add: Unfollow_def Let_def split: option.splits if_splits)

lemma Follow_false_same: "\<not> fst (Follow g u v) \<Longrightarrow> snd (Follow g u v) = g"
  by (auto simp add: Follow_def Let_def split: option.splits prod.splits if_splits)

lemma UserEpoch_cong: "epochs g' = epochs g \<Longrightarrow> UserEpoch g' w = UserEpoch g w"
  by (simp add: UserEpoch_def)

lemma set_following_twice:
  "set_following (set_following g u a) u b = set_following g u b"
  by (simp add: set_following_def)

lemma set_followers_twice:
  "set_followers (set_followers g u a) u b = set_followers g u b"
  by (simp add: set_followers_def)

lemma Follow_eq:
  "Follow g u v =
     (if u = v \<or> v \<in> following_set g u then (False, g)
      else (True, TouchUsers
                    (set_followers (set_following g u (Some (insert v (following_set g u))))
                       v (Some (insert u (followers_set g v))))
                    [u, v]))"
proof (cases "u = v")
  case True
  then show ?thesis by (simp add: Follow_def)
next
  case uv: False
  show ?thesis
  proof (cases "following (ss g (h u)) u")
    case fn: None
    show ?thesis
    proof (cases "followers (ss g (h v)) v")
      case None
      then show ?thesis
        using uv fn
        by (simp add: Follow_def Let_def following_set_def followers_set_def raw_simps
              set_following_twice set_followers_twice del: TouchUsers.simps)
    next
      case (Some r)
      then show ?thesis
        using uv fn
        by (simp add: Follow_def Let_def following_set_def followers_set_def raw_simps
              set_following_twice set_followers_twice del: TouchUsers.simps)
    qed
  next
    case fs: (Some s)
    show ?thesis
    proof (cases "followers (ss g (h v)) v")
      case None
      then show ?thesis
        using uv fs
        by (simp add: Follow_def Let_def following_set_def followers_set_def raw_simps
              set_following_twice set_followers_twice del: TouchUsers.simps)
    next
      case (Some r)
      then show ?thesis
        using uv fs
        by (simp add: Follow_def Let_def following_set_def followers_set_def raw_simps
              set_following_twice set_followers_twice del: TouchUsers.simps)
    qed
  qed
qed

lemma Follow_true_form:
  assumes "fst (Follow g u v)"
  shows "\<exists>g'. snd (Follow g u v) = TouchUsers g' [u, v] \<and> epochs g' = epochs g"
proof -
  let ?g' = "set_followers (set_following g u (Some (insert v (following_set g u))))
               v (Some (insert u (followers_set g v)))"
  have "snd (Follow g u v) = TouchUsers ?g' [u, v]"
    using assms unfolding Follow_eq by (simp split: if_splits del: TouchUsers.simps)
  moreover have "epochs ?g' = epochs g"
    by (simp add: raw_simps)
  ultimately show ?thesis by blast
qed

lemma Unfollow_eq:
  "Unfollow g u v =
     (if v \<in> following_set g u
      then (True, TouchUsers
                    (let g2 = set_following g u
                                (if following_set g u - {v} = {} then None
                                 else Some (following_set g u - {v}))
                     in case followers (ss g (h v)) v of
                          None \<Rightarrow> g2
                        | Some r \<Rightarrow> set_followers g2 v
                                      (if r - {u} = {} then None else Some (r - {u})))
                    [u, v])
      else (False, g))"
proof (cases "following (ss g (h u)) u")
  case None
  then show ?thesis by (simp add: Unfollow_def following_set_def)
next
  case fs: (Some s)
  show ?thesis
  proof (cases "v \<in> s")
    case False
    then show ?thesis using fs by (simp add: Unfollow_def following_set_def)
  next
    case vin: True
    show ?thesis
    proof (cases "followers (ss g (h v)) v")
      case None
      then show ?thesis
        using fs vin
        by (simp add: Unfollow_def Let_def following_set_def raw_simps
              set_following_twice set_followers_twice del: TouchUsers.simps)
    next
      case (Some r)
      then show ?thesis
        using fs vin
        by (simp add: Unfollow_def Let_def following_set_def raw_simps
              set_following_twice set_followers_twice del: TouchUsers.simps)
    qed
  qed
qed

lemma Unfollow_true_form:
  assumes "fst (Unfollow g u v)"
  shows "\<exists>g'. snd (Unfollow g u v) = TouchUsers g' [u, v] \<and> epochs g' = epochs g"
proof -
  let ?g2 = "set_following g u
                                (if following_set g u - {v} = {} then None
                                 else Some (following_set g u - {v}))"
  let ?g' = "case followers (ss g (h v)) v of
                          None \<Rightarrow> ?g2
                        | Some r \<Rightarrow> set_followers ?g2 v
                                      (if r - {u} = {} then None else Some (r - {u}))"
  have "snd (Unfollow g u v) = TouchUsers ?g' [u, v]"
    using assms unfolding Unfollow_eq by (simp add: Let_def split: if_splits del: TouchUsers.simps)
  moreover have "epochs ?g' = epochs g"
    by (simp add: raw_simps split: option.splits)
  ultimately show ?thesis by blast
qed

lemma UserEpoch_Follow:
  "UserEpoch (snd (Follow g u v)) w =
     UserEpoch g w + of_nat (if fst (Follow g u v) then count_list [u, v] w else 0)"
proof (cases "fst (Follow g u v)")
  case True
  then obtain g' where "snd (Follow g u v) = TouchUsers g' [u, v]" and "epochs g' = epochs g"
    using Follow_true_form by blast
  then show ?thesis
    using True UserEpoch_cong[of g' g w]
    by (simp add: UserEpoch_TouchUsers del: TouchUsers.simps)
next
  case False
  then show ?thesis by (simp add: Follow_false_same)
qed

lemma UserEpoch_Unfollow:
  "UserEpoch (snd (Unfollow g u v)) w =
     UserEpoch g w + of_nat (if fst (Unfollow g u v) then count_list [u, v] w else 0)"
proof (cases "fst (Unfollow g u v)")
  case True
  then obtain g' where "snd (Unfollow g u v) = TouchUsers g' [u, v]" and "epochs g' = epochs g"
    using Unfollow_true_form by blast
  then show ?thesis
    using True UserEpoch_cong[of g' g w]
    by (simp add: UserEpoch_TouchUsers del: TouchUsers.simps)
next
  case False
  then show ?thesis by (simp add: Unfollow_false_same)
qed

lemma UserEpoch_apply_op:
  "UserEpoch (apply_op g x) w = UserEpoch g w + of_nat (bumps g x w)"
  by (cases x) (simp_all add: UserEpoch_Follow UserEpoch_Unfollow UserEpoch_TouchUsers)

lemma UserEpoch_run:
  "UserEpoch (run g ops) w = UserEpoch g w + of_nat (total_bumps g ops w)"
  by (induction ops arbitrary: g) (simp_all add: UserEpoch_apply_op)

lemma reach_apply_op: "reach g \<Longrightarrow> reach (apply_op g x)"
  by (cases x) (simp_all add: reach_follow reach_unfollow reach_touch)

lemma reach_run: "reach g \<Longrightarrow> reach (run g ops)"
  by (induction ops arbitrary: g) (simp_all add: reach_apply_op)

lemma word_add_no_wrap:
  fixes x :: "64 word"
  assumes "unat x + n < 2 ^ 64"
  shows "x \<le> x + of_nat n"
proof -
  have "n < 2 ^ 64" using assms by simp
  then have "unat (of_nat n :: 64 word) = n"
    by (simp add: unat_of_nat)
  then have "unat x + unat (of_nat n :: 64 word) < 2 ^ LENGTH(64)"
    using assms by simp
  then show ?thesis
    by (simp add: no_olen_add_nat)
qed

text \<open>
  Claim C4 (epoch counters), with the wrap-around of the 64-bit counter written out. The
  epoch of every user is 0 in the empty graph and stays 0 over any sequence of operations
  that never touches the user; a \<open>Follow\<close> or \<open>Unfollow\<close> that returns true adds exactly 1
  (modulo \<open>2 ^ 64\<close>) to the epoch of each endpoint; over any sequence of operations the epoch
  of a user does not decrease as long as its value before plus the number of times it is
  touched stays below \<open>2 ^ 64\<close>; an operation that returns false leaves all epochs as they
  were.
\<close>

theorem epoch_semantics:
  assumes "reach g"
  shows "UserEpoch NewMemGraph w = 0 \<and>
         (total_bumps NewMemGraph ops w = 0 \<longrightarrow> UserEpoch (run NewMemGraph ops) w = 0) \<and>
         (fst (Follow g u v) \<longrightarrow>
            UserEpoch (snd (Follow g u v)) u = UserEpoch g u + 1 \<and>
            UserEpoch (snd (Follow g u v)) v = UserEpoch g v + 1) \<and>
         (fst (Unfollow g u v) \<longrightarrow>
            UserEpoch (snd (Unfollow g u v)) u = UserEpoch g u + 1 \<and>
            UserEpoch (snd (Unfollow g u v)) v = UserEpoch g v + 1) \<and>
         (unat (UserEpoch g w) + total_bumps g ops w < 2 ^ 64 \<longrightarrow>
            UserEpoch g w \<le> UserEpoch (run g ops) w) \<and>
         (\<not> fst (Follow g u v) \<longrightarrow> epochs (snd (Follow g u v)) = epochs g) \<and>
         (\<not> fst (Unfollow g u v) \<longrightarrow> epochs (snd (Unfollow g u v)) = epochs g)"
proof -
  have z: "UserEpoch NewMemGraph w = 0"
    by (simp add: UserEpoch_def NewMemGraph_def)
  have z2: "total_bumps NewMemGraph ops w = 0 \<Longrightarrow> UserEpoch (run NewMemGraph ops) w = 0"
    by (simp add: UserEpoch_run z)
  have f: "fst (Follow g u v) \<Longrightarrow>
            UserEpoch (snd (Follow g u v)) u = UserEpoch g u + 1 \<and>
            UserEpoch (snd (Follow g u v)) v = UserEpoch g v + 1"
    by (auto simp add: UserEpoch_Follow fst_Follow)
  have irr: "u \<notin> following_set g u"
    using reach_inv[OF assms] unfolding graph_inv_def by blast
  have uf: "fst (Unfollow g u v) \<Longrightarrow>
            UserEpoch (snd (Unfollow g u v)) u = UserEpoch g u + 1 \<and>
            UserEpoch (snd (Unfollow g u v)) v = UserEpoch g v + 1"
    using irr by (auto simp add: UserEpoch_Unfollow fst_Unfollow)
  have m: "unat (UserEpoch g w) + total_bumps g ops w < 2 ^ 64 \<Longrightarrow>
            UserEpoch g w \<le> UserEpoch (run g ops) w"
    by (simp add: UserEpoch_run word_add_no_wrap)
  show ?thesis
    using z z2 f uf m Follow_false_same[of g u v] Unfollow_false_same[of g u v] by simp
qed

lemma reach_touched: "reach (NewMemGraph\<lparr> epochs := [1 \<mapsto> of_nat n + 1] \<rparr>)"
proof (induction n)
  case 0
  have "TouchUsers NewMemGraph [1] = NewMemGraph\<lparr> epochs := [1 \<mapsto> of_nat 0 + 1] \<rparr>"
    by (simp add: UserEpoch_def NewMemGraph_def)
  moreover have "reach (TouchUsers NewMemGraph [1])"
    by (rule reach_touch[OF reach_new])
  ultimately show ?case by (simp only:)
next
  case (Suc n)
  have "TouchUsers (NewMemGraph\<lparr> epochs := [1 \<mapsto> of_nat n + 1] \<rparr>) [1]
          = NewMemGraph\<lparr> epochs := [1 \<mapsto> of_nat (Suc n) + 1] \<rparr>"
    by (simp add: UserEpoch_def NewMemGraph_def)
  moreover have "reach (TouchUsers (NewMemGraph\<lparr> epochs := [1 \<mapsto> of_nat n + 1] \<rparr>) [1])"
    by (rule reach_touch[OF Suc])
  ultimately show ?case by (simp only:)
qed

lemma reach_wrap_graph: "reach wrap_graph"
proof -
  have "(of_nat (unat (18446744073709551614 :: 64 word)) + 1 :: 64 word) = 18446744073709551615"
    by simp
  then show ?thesis
    using reach_touched[of "unat (18446744073709551614 :: 64 word)"]
    by (simp only: wrap_graph_def)
qed

text \<open>
  Claim C4 as stated says the epoch never decreases. \<open>wrap_graph\<close> is reachable (by
  touching user 1 often enough), and there one more successful \<open>Follow\<close> takes the epoch of
  user 1 from \<open>2 ^ 64 - 1\<close> to 0.
\<close>

theorem epoch_semantics_counterexample:
  "reach wrap_graph \<and> fst (Follow wrap_graph 1 2) \<and>
   UserEpoch wrap_graph 1 = 18446744073709551615 \<and>
   UserEpoch (snd (Follow wrap_graph 1 2)) 1 = 0 \<and>
   UserEpoch (snd (Follow wrap_graph 1 2)) 1 < UserEpoch wrap_graph 1"
proof -
  have fs: "following_set wrap_graph 1 = {}"
    by (simp add: wrap_graph_def following_set_def NewMemGraph_def)
  have e: "UserEpoch wrap_graph 1 = 18446744073709551615"
    by (simp add: wrap_graph_def UserEpoch_def)
  have f: "fst (Follow wrap_graph 1 2)"
    by (simp add: fst_Follow fs)
  have a: "UserEpoch (snd (Follow wrap_graph 1 2)) 1 = 0"
    using f by (simp add: UserEpoch_Follow e)
  show ?thesis
    using reach_wrap_graph f e a by simp
qed

theorem epoch_semantics_witness:
  "reach NewMemGraph \<and> fst (Follow NewMemGraph 1 2) \<and>
   UserEpoch (snd (Follow NewMemGraph 1 2)) 1 = 1 \<and>
   UserEpoch (snd (Follow NewMemGraph 1 2)) 2 = 1 \<and>
   \<not> fst (Unfollow NewMemGraph 1 2) \<and>
   epochs (snd (Unfollow NewMemGraph 1 2)) = epochs NewMemGraph \<and>
   \<not> fst (Follow NewMemGraph 3 3) \<and>
   epochs (snd (Follow NewMemGraph 3 3)) = epochs NewMemGraph \<and>
   total_bumps NewMemGraph [OpFollow 1 2, OpUnfollow 1 2, OpFollow 1 1] 3 = 0 \<and>
   UserEpoch (run NewMemGraph [OpFollow 1 2, OpUnfollow 1 2, OpFollow 1 1]) 3 = 0 \<and>
   unat (UserEpoch NewMemGraph 1)
     + total_bumps NewMemGraph [OpFollow 1 2, OpUnfollow 1 2, OpFollow 1 1] 1 < 2 ^ 64 \<and>
   UserEpoch NewMemGraph 1
     \<le> UserEpoch (run NewMemGraph [OpFollow 1 2, OpUnfollow 1 2, OpFollow 1 1]) 1"
proof -
  have z: "UserEpoch NewMemGraph w = 0" for w
    by (simp add: UserEpoch_def NewMemGraph_def)
  have f: "fst (Follow NewMemGraph 1 2)" "\<not> fst (Unfollow NewMemGraph 1 2)"
    "\<not> fst (Follow NewMemGraph 3 3)"
    by (simp_all add: fst_Follow fst_Unfollow following_set_new)
  have t3: "total_bumps NewMemGraph [OpFollow 1 2, OpUnfollow 1 2, OpFollow 1 1] 3 = 0"
    by simp
  have t1: "total_bumps NewMemGraph [OpFollow 1 2, OpUnfollow 1 2, OpFollow 1 1] 1 \<le> 4"
    by simp
  have b: "unat (UserEpoch NewMemGraph 1)
     + total_bumps NewMemGraph [OpFollow 1 2, OpUnfollow 1 2, OpFollow 1 1] 1 < 2 ^ 64"
    using t1 by (simp add: z)
  show ?thesis
    using epoch_semantics[OF reach_new, of 1 "[OpFollow 1 2, OpUnfollow 1 2, OpFollow 1 1]" 1 2]
      epoch_semantics[OF reach_new, of 3 "[OpFollow 1 2, OpUnfollow 1 2, OpFollow 1 1]" 3 3]
      f t3 b reach_new
    by (simp add: z)
qed

section \<open>Properties of the recommendation cache\<close>

lemma lruCache_removeOldest_fst:
  "fst (lruCache_removeOldest c m) = removeOldest c"
  by (simp add: removeOldest_def lruCache_removeOldest_def split: list.splits)

lemma removeOldest_eq:
  "removeOldest c = (case rev (ll c) of [] \<Rightarrow> c | ele # _ \<Rightarrow> removeElement c ele)"
  by (simp add: removeOldest_def lruCache_removeOldest_def split: list.splits)

lemma lru_Get_eq:
  "lru_Get c now key =
     (if capacity c = 0 then (None, c)
      else case table c key of
             Some ent \<Rightarrow>
               if now > ce_expiresAt ent then (None, removeElement c ent)
               else (Some (ce_value ent), c\<lparr> ll := MoveToFront (ll c) ent \<rparr>)
           | None \<Rightarrow> (None, c))"
  by (simp add: lru_Get_def lruCache_Get_def split: option.splits)

lemma lruCache_Get_fst: "fst (lruCache_Get c now key m) = lru_Get c now key"
  by (simp add: lru_Get_eq lruCache_Get_def split: option.splits)

lemma lruCache_Set_fst: "fst (lruCache_Set c now key val m) = lru_Set c now key val"
  by (simp add: lru_Set_def lruCache_Set_def Let_def lruCache_removeOldest_fst
        split: option.splits)

lemma lru_Set_eq:
  "lru_Set c now key val =
     (if capacity c = 0 then c
      else case table c key of
             Some ent0 \<Rightarrow>
               let ent = ent0\<lparr> ce_value := val, ce_expiresAt := now + ttl c \<rparr>
               in c\<lparr> table := (table c)(key \<mapsto> ent), ll := MoveToFront (ll c) ent \<rparr>
           | None \<Rightarrow>
               let ent = \<lparr> ce_key = key, ce_value = val, ce_expiresAt = now + ttl c \<rparr>;
                   c1 = c\<lparr> ll := ent # ll c, table := (table c)(key \<mapsto> ent) \<rparr>
               in if int (length (ll c1)) > capacity c1 then removeOldest c1 else c1)"
  by (simp add: lru_Set_def lruCache_Set_def Let_def lruCache_removeOldest_fst
        split: option.splits)

lemma callbacks_removeElement:
  "onHit (removeElement c e) = onHit c" "onMiss (removeElement c e) = onMiss c"
  "onEvict (removeElement c e) = onEvict c"
  by (simp_all add: removeElement_def)

lemma callbacks_Get:
  "onHit (snd (lru_Get c now key)) = onHit c" "onMiss (snd (lru_Get c now key)) = onMiss c"
  "onEvict (snd (lru_Get c now key)) = onEvict c"
  by (simp_all add: lru_Get_eq callbacks_removeElement split: option.splits)

lemma callbacks_Set:
  "onHit (lru_Set c now key val) = onHit c" "onMiss (lru_Set c now key val) = onMiss c"
  "onEvict (lru_Set c now key val) = onEvict c"
  by (simp_all add: lru_Set_eq removeOldest_eq Let_def callbacks_removeElement
        split: option.splits list.splits)

lemma lruCache_Get_snd:
  "snd (lruCache_Get c now key m)
     = (if capacity c = 0 then m
        else if fst (lru_Get c now key) = None then call (onMiss c) m
        else call (onHit c) m)"
  by (simp add: lruCache_Get_def lru_Get_eq split: option.splits)

lemma lruCache_Set_snd:
  "snd (lruCache_Set c now key val m)
     = (if capacity c \<noteq> 0 \<and> table c key = None \<and> capacity c < int (length (ll c)) + 1
        then call (onEvict c) m else m)"
  by (simp add: lruCache_Set_def lruCache_removeOldest_def Let_def
        split: option.splits list.splits)


lemma capacity_Get: "capacity (snd (lru_Get c now key)) = capacity c"
  by (simp add: lru_Get_eq removeElement_def split: option.splits)
















section \<open>Correctness of the heap and of the top-K selection\<close>

declare up.simps [simp del] down.simps [simp del]

lemma length_Swap: "length (Swap hp i j) = length hp"
  by (simp add: Swap_def)

lemma nth_Swap:
  assumes "i < length hp" and "j < length hp" and "x < length hp"
  shows "Swap hp i j ! x = (if x = j then hp ! i else if x = i then hp ! j else hp ! x)"
  using assms by (simp add: Swap_def nth_list_update)

lemma mset_Swap:
  assumes "i < length hp" and "j < length hp"
  shows "mset (Swap hp i j) = mset hp"
  using assms by (simp add: Swap_def mset_swap)

lemma parent_less: "0 < x \<Longrightarrow> parent x < x"
  unfolding parent_def by arith

lemma except_up_step:
  assumes ex: "except_up hp j" and j: "j < length hp" and j0: "0 < j"
    and pj: "parent j = i"
    and lt: "sc_score (hp ! j) < sc_score (hp ! i)"
  shows "except_up (Swap hp i j) i"
proof -
  have ij: "i < j" using parent_less[OF j0] pj by simp
  have il: "i < length hp" using ij j by simp
  have A: "sc_score (hp ! (parent x)) \<le> sc_score (hp ! x)"
    if "x < length hp" "0 < x" "x \<noteq> j" for x
    using ex that unfolding except_up_def by blast
  have B: "sc_score (hp ! i) \<le> sc_score (hp ! x)"
    if "x < length hp" "0 < x" "parent x = j" for x
    using ex that j0 pj unfolding except_up_def by blast
  have sw: "Swap hp i j ! x = (if x = j then hp ! i else if x = i then hp ! j else hp ! x)"
    if "x < length hp" for x
    using nth_Swap[OF il j that] .
  have "(x \<noteq> i \<longrightarrow> sc_score (Swap hp i j ! (parent x)) \<le> sc_score (Swap hp i j ! x)) \<and>
        (parent x = i \<longrightarrow> 0 < i \<longrightarrow>
           sc_score (Swap hp i j ! (parent i)) \<le> sc_score (Swap hp i j ! x))"
    if xl: "x < length hp" and x0: "0 < x" for x
  proof -
    let ?p = "parent x"
    have pl: "?p < length hp" using parent_less[OF x0] xl by simp
    have px: "?p < x" by (rule parent_less[OF x0])
    have first: "sc_score (Swap hp i j ! ?p) \<le> sc_score (Swap hp i j ! x)" if xi: "x \<noteq> i"
    proof (cases "x = j")
      case True
      then show ?thesis using lt ij pj by (simp add: sw[OF j] sw[OF il])
    next
      case xj: False
      show ?thesis
      proof (cases "?p = i")
        case True
        have "sc_score (hp ! i) \<le> sc_score (hp ! x)" using A[OF xl x0 xj] True by simp
        then show ?thesis
          using True xj xi lt ij by (simp add: sw[OF xl] sw[OF il])
      next
        case pi: False
        show ?thesis
        proof (cases "?p = j")
          case True
          then show ?thesis
            using B[OF xl x0 True] xj xi ij by (simp add: sw[OF xl] sw[OF j])
        next
          case False
          then show ?thesis
            using A[OF xl x0 xj] pi xj xi by (simp add: sw[OF xl] sw[OF pl])
        qed
      qed
    qed
    have second: "sc_score (Swap hp i j ! (parent i)) \<le> sc_score (Swap hp i j ! x)"
      if pxi: "?p = i" and i0: "0 < i"
    proof -
      have ppl: "parent i < i" by (rule parent_less[OF i0])
      have g: "Swap hp i j ! (parent i) = hp ! (parent i)"
        using ppl ij il by (simp add: sw)
      have ai: "sc_score (hp ! (parent i)) \<le> sc_score (hp ! i)"
        using A[OF il i0] ij by simp
      have xi: "x \<noteq> i" using px pxi by simp
      show ?thesis
      proof (cases "x = j")
        case True
        then show ?thesis using ai by (simp add: g sw[OF j])
      next
        case False
        have "sc_score (hp ! i) \<le> sc_score (hp ! x)" using A[OF xl x0 False] pxi by simp
        then show ?thesis using ai False xi by (simp add: g sw[OF xl])
      qed
    qed
    show ?thesis using first second by blast
  qed
  then show ?thesis
    unfolding except_up_def by (simp add: length_Swap)
qed

lemma up_unfold_stop:
  "parent j = j \<or> \<not> Less hp j (parent j) \<Longrightarrow> up hp j = hp"
  by (subst up.simps) (simp add: Let_def parent_def)

lemma up_unfold_step:
  "\<not> (parent j = j \<or> \<not> Less hp j (parent j)) \<Longrightarrow>
     up hp j = up (Swap hp (parent j) j) (parent j)"
  by (subst up.simps) (simp add: Let_def parent_def)

lemma up_props:
  "j < length hp \<Longrightarrow>
     length (up hp j) = length hp \<and> mset (up hp j) = mset hp \<and>
     (except_up hp j \<longrightarrow> is_heap (up hp j))"
proof (induction hp j rule: up.induct)
  case (1 hp j)
  let ?i = "parent j"
  show ?case
  proof (cases "?i = j \<or> \<not> Less hp j ?i")
    case True
    have "is_heap hp" if ex: "except_up hp j"
      unfolding is_heap_def
    proof (intro allI impI)
      fix x assume xl: "x < length hp" and x0: "0 < x"
      show "sc_score (hp ! (parent x)) \<le> sc_score (hp ! x)"
      proof (cases "x = j")
        case False
        then show ?thesis using ex xl x0 unfolding except_up_def by blast
      next
        case xj: True
        have "?i \<noteq> j" using parent_less[of j] x0 xj by simp
        then have "\<not> Less hp j ?i" using True by simp
        then show ?thesis using xj by (simp add: Less_def)
      qed
    qed
    then show ?thesis using up_unfold_stop[OF True] by simp
  next
    case False
    have j0: "0 < j" using False by (cases j) (auto simp add: parent_def)
    have lt: "sc_score (hp ! j) < sc_score (hp ! ?i)" using False by (simp add: Less_def)
    have il: "?i < length hp" using parent_less[OF j0] "1.prems" by simp
    have eq: "up hp j = up (Swap hp ?i j) ?i" by (rule up_unfold_step[OF False])
    have IH: "length (up (Swap hp ?i j) ?i) = length (Swap hp ?i j) \<and>
              mset (up (Swap hp ?i j) ?i) = mset (Swap hp ?i j) \<and>
              (except_up (Swap hp ?i j) ?i \<longrightarrow> is_heap (up (Swap hp ?i j) ?i))"
      using "1.IH"[folded parent_def, OF refl False] il by (simp add: length_Swap)
    show ?thesis
      using IH except_up_step[OF _ "1.prems" j0 refl lt] mset_Swap[OF il "1.prems"]
      by (auto simp add: eq length_Swap)
  qed
qed


lemma parent_child: "0 < x \<Longrightarrow> parent x = i \<longleftrightarrow> x = 2 * i + 1 \<or> x = 2 * i + 2"
  unfolding parent_def by arith

lemma small_child_props:
  assumes "2 * i + 1 < n"
  shows "small_child hp i n < n" and "parent (small_child hp i n) = i"
    and "i < small_child hp i n"
    and "\<And>x. x < n \<Longrightarrow> 0 < x \<Longrightarrow> parent x = i \<Longrightarrow>
           sc_score (hp ! small_child hp i n) \<le> sc_score (hp ! x)"
proof -
  show "small_child hp i n < n" using assms by (simp add: small_child_def)
  show "parent (small_child hp i n) = i" by (simp add: small_child_def parent_def)
  show "i < small_child hp i n" by (simp add: small_child_def)
  fix x assume "x < n" "0 < x" "parent x = i"
  then have "x = 2 * i + 1 \<or> x = 2 * i + 2" by (simp add: parent_child)
  then show "sc_score (hp ! small_child hp i n) \<le> sc_score (hp ! x)"
    using \<open>x < n\<close> by (auto simp add: small_child_def Less_def)
qed

lemma down_unfold_stop1: "2 * i + 1 \<ge> n \<Longrightarrow> down hp i n = hp"
  by (subst down.simps) (simp add: Let_def)

lemma down_unfold_stop2:
  "2 * i + 1 < n \<Longrightarrow> \<not> Less hp (small_child hp i n) i \<Longrightarrow> down hp i n = hp"
  by (subst down.simps) (auto simp add: Let_def small_child_def split: if_splits)

lemma down_unfold_step:
  "2 * i + 1 < n \<Longrightarrow> Less hp (small_child hp i n) i \<Longrightarrow>
     down hp i n = down (Swap hp i (small_child hp i n)) (small_child hp i n) n"
  by (subst down.simps) (auto simp add: Let_def small_child_def split: if_splits)

lemma except_down_step:
  assumes ex: "except_down hp i n" and n: "n \<le> length hp" and c: "2 * i + 1 < n"
    and j: "j = small_child hp i n"
    and lt: "sc_score (hp ! j) < sc_score (hp ! i)"
  shows "except_down (Swap hp i j) j n"
proof -
  have jn: "j < n" and pj: "parent j = i" and ij: "i < j"
    and mn: "\<And>x. x < n \<Longrightarrow> 0 < x \<Longrightarrow> parent x = i \<Longrightarrow> sc_score (hp ! j) \<le> sc_score (hp ! x)"
    using small_child_props[OF c, where hp=hp] unfolding j by blast+
  have jl: "j < length hp" using jn n by simp
  have il: "i < length hp" using ij jl by simp
  have j0: "0 < j" using ij by simp
  have A: "sc_score (hp ! parent x) \<le> sc_score (hp ! x)"
    if "x < n" "0 < x" "parent x \<noteq> i" for x
    using ex that unfolding except_down_def by blast
  have B: "sc_score (hp ! parent i) \<le> sc_score (hp ! x)"
    if "x < n" "0 < x" "parent x = i" "0 < i" for x
    using ex that unfolding except_down_def by blast
  have sw: "Swap hp i j ! x = (if x = j then hp ! i else if x = i then hp ! j else hp ! x)"
    if "x < length hp" for x
    using nth_Swap[OF il jl that] .
  have "(parent x \<noteq> j \<longrightarrow> sc_score (Swap hp i j ! parent x) \<le> sc_score (Swap hp i j ! x)) \<and>
        (parent x = j \<longrightarrow> 0 < j \<longrightarrow>
           sc_score (Swap hp i j ! parent j) \<le> sc_score (Swap hp i j ! x))"
    if xn: "x < n" and x0: "0 < x" for x
  proof -
    have xl: "x < length hp" using xn n by simp
    have px: "parent x < x" by (rule parent_less[OF x0])
    have pl: "parent x < length hp" using px xl by simp
    have first: "sc_score (Swap hp i j ! parent x) \<le> sc_score (Swap hp i j ! x)"
      if pxj: "parent x \<noteq> j"
    proof (cases "x = j")
      case True
      then show ?thesis using lt ij pj by (simp add: sw[OF jl] sw[OF il])
    next
      case xj: False
      show ?thesis
      proof (cases "parent x = i")
        case True
        have xi: "x \<noteq> i" using px True by simp
        show ?thesis
          using mn[OF xn x0 True] True xj xi ij by (simp add: sw[OF xl] sw[OF il])
      next
        case pxi: False
        show ?thesis
        proof (cases "x = i")
          case True
          have i0: "0 < i" using True x0 by simp
          have "parent i < i" by (rule parent_less[OF i0])
          then have "Swap hp i j ! parent i = hp ! parent i"
            using ij il by (simp add: sw)
          then show ?thesis
            using B[OF jn j0 pj i0] True ij by (simp add: sw[OF il])
        next
          case False
          then show ?thesis
            using A[OF xn x0 pxi] pxi pxj xj by (simp add: sw[OF xl] sw[OF pl])
        qed
      qed
    qed
    have second: "sc_score (Swap hp i j ! parent j) \<le> sc_score (Swap hp i j ! x)"
      if pxj: "parent x = j"
    proof -
      have xj: "x \<noteq> j" "x \<noteq> i" using px pxj ij by simp_all
      have "parent x \<noteq> i" using pxj ij by simp
      then have "sc_score (hp ! j) \<le> sc_score (hp ! x)"
        using A[OF xn x0] pxj by simp
      then show ?thesis
        using xj ij by (simp add: pj sw[OF xl] sw[OF il])
    qed
    show ?thesis using first second by blast
  qed
  then show ?thesis
    unfolding except_down_def by simp
qed

lemma down_props:
  "n \<le> length hp \<Longrightarrow>
     length (down hp i n) = length hp \<and> mset (down hp i n) = mset hp \<and>
     (\<forall>x\<ge>n. down hp i n ! x = hp ! x) \<and>
     (except_down hp i n \<longrightarrow> heap_upto (down hp i n) n)"
proof (induction hp i n rule: down.induct)
  case (1 hp i n)
  show ?case
  proof (cases "2 * i + 1 \<ge> n")
    case True
    have "heap_upto hp n" if ex: "except_down hp i n"
      unfolding heap_upto_def
    proof (intro allI impI)
      fix x assume xn: "x < n" and x0: "0 < x"
      have "parent x \<noteq> i" using True xn x0 parent_child[OF x0, of i] by auto
      then show "sc_score (hp ! parent x) \<le> sc_score (hp ! x)"
        using ex xn x0 unfolding except_down_def by blast
    qed
    then show ?thesis by (simp add: down_unfold_stop1[OF True])
  next
    case False
    then have c: "2 * i + 1 < n" by simp
    define j where "j = small_child hp i n"
    have jn: "j < n" and pj: "parent j = i" and ij: "i < j"
      and mn: "\<And>x. x < n \<Longrightarrow> 0 < x \<Longrightarrow> parent x = i \<Longrightarrow> sc_score (hp ! j) \<le> sc_score (hp ! x)"
      using small_child_props[OF c, where hp=hp] unfolding j_def by blast+
    show ?thesis
    proof (cases "Less hp j i")
      case nl: False
      have "heap_upto hp n" if ex: "except_down hp i n"
        unfolding heap_upto_def
      proof (intro allI impI)
        fix x assume xn: "x < n" and x0: "0 < x"
        show "sc_score (hp ! parent x) \<le> sc_score (hp ! x)"
        proof (cases "parent x = i")
          case True
          then show ?thesis using mn[OF xn x0 True] nl by (simp add: Less_def)
        next
          case False
          then show ?thesis using ex xn x0 unfolding except_down_def by blast
        qed
      qed
      then show ?thesis using down_unfold_stop2[OF c] nl by (simp add: j_def)
    next
      case lt: True
      have jl: "j < length hp" using jn "1.prems" by simp
      have il: "i < length hp" using ij jl by simp
      have eq: "down hp i n = down (Swap hp i j) j n"
        using down_unfold_step[OF c] lt by (simp add: j_def)
      have IH: "length (down (Swap hp i j) j n) = length (Swap hp i j) \<and>
                mset (down (Swap hp i j) j n) = mset (Swap hp i j) \<and>
                (\<forall>x\<ge>n. down (Swap hp i j) j n ! x = Swap hp i j ! x) \<and>
                (except_down (Swap hp i j) j n \<longrightarrow> heap_upto (down (Swap hp i j) j n) n)"
        using "1.IH"[OF refl _ refl] c lt "1.prems"
        by (simp add: j_def small_child_def length_Swap)
      have un: "\<forall>x\<ge>n. Swap hp i j ! x = hp ! x"
        using jn ij by (simp add: Swap_def)
      have st: "except_down hp i n \<Longrightarrow> except_down (Swap hp i j) j n"
        using except_down_step[OF _ "1.prems" c j_def] lt by (simp add: Less_def)
      show ?thesis
        using IH un st mset_Swap[OF il jl] by (simp add: eq length_Swap)
    qed
  qed
qed


lemma heap_Push_props:
  assumes "is_heap hp"
  shows "is_heap (heap_Push hp x) \<and> mset (heap_Push hp x) = add_mset x (mset hp) \<and>
         length (heap_Push hp x) = Suc (length hp)"
proof -
  let ?hp1 = "hp @ [x]"
  have ex: "except_up ?hp1 (length hp)"
    unfolding except_up_def
  proof (intro allI impI conjI)
    fix y assume yl: "y < length ?hp1" and y0: "0 < y"
    have py: "parent y < y" by (rule parent_less[OF y0])
    { assume "y \<noteq> length hp"
      then have "y < length hp" using yl by simp
      then show "sc_score (?hp1 ! parent y) \<le> sc_score (?hp1 ! y)"
        using assms y0 py unfolding is_heap_def by (simp add: nth_append) }
    { assume "parent y = length hp"
      then have False using py yl by simp
      then show "sc_score (?hp1 ! parent (length hp)) \<le> sc_score (?hp1 ! y)" .. }
  qed
  have "length hp < length ?hp1" by simp
  from up_props[OF this] ex show ?thesis
    by (simp add: heap_Push_def Let_def)
qed

lemma heap_root_min:
  assumes "is_heap hp"
  shows "x < length hp \<Longrightarrow> sc_score (hp ! 0) \<le> sc_score (hp ! x)"
proof (induction x rule: less_induct)
  case (less x)
  show ?case
  proof (cases "x = 0")
    case True
    then show ?thesis by simp
  next
    case False
    then have x0: "0 < x" by simp
    have px: "parent x < x" by (rule parent_less[OF x0])
    have "sc_score (hp ! 0) \<le> sc_score (hp ! parent x)"
      using less.IH[OF px] px less.prems by simp
    moreover have "sc_score (hp ! parent x) \<le> sc_score (hp ! x)"
      using assms less.prems x0 unfolding is_heap_def by blast
    ultimately show ?thesis by simp
  qed
qed

lemma heap_Pop_props:
  assumes hp: "is_heap hp" and ne: "hp \<noteq> []"
  shows "\<exists>hp'. heap_Pop hp = Some (hp ! 0, hp') \<and> is_heap hp' \<and>
               mset hp = add_mset (hp ! 0) (mset hp') \<and> Suc (length hp') = length hp"
proof -
  define n where "n = length hp - 1"
  have nl: "n < length hp" "Suc n = length hp" using ne by (simp_all add: n_def)
  define hp1 where "hp1 = Swap hp 0 n"
  define hp2 where "hp2 = down hp1 0 n"
  have l0: "0 < length hp" using ne by simp
  have l1: "length hp1 = length hp" by (simp add: hp1_def length_Swap)
  have sw: "hp1 ! y = (if y = n then hp ! 0 else if y = 0 then hp ! n else hp ! y)"
    if "y < length hp" for y
    unfolding hp1_def using nth_Swap[OF l0 nl(1) that] .
  have ex: "except_down hp1 0 n"
    unfolding except_down_def
  proof (intro allI impI conjI)
    fix y assume yn: "y < n" and y0: "0 < y"
    have py: "parent y < y" by (rule parent_less[OF y0])
    { assume "parent y \<noteq> 0"
      then show "sc_score (hp1 ! parent y) \<le> sc_score (hp1 ! y)"
        using hp yn y0 py nl unfolding is_heap_def by (simp add: sw) }
    { assume "(0::nat) < 0"
      then show "sc_score (hp1 ! parent 0) \<le> sc_score (hp1 ! y)" by simp }
  qed
  have nle: "n \<le> length hp1" using nl l1 by simp
  have d: "length hp2 = length hp1" "mset hp2 = mset hp1" "\<forall>y\<ge>n. hp2 ! y = hp1 ! y"
    "heap_upto hp2 n"
    using down_props[OF nle, of 0] ex unfolding hp2_def by blast+
  have last: "hp2 ! n = hp ! 0"
    using d(3) sw[OF nl(1)] by simp
  have pop: "heap_Pop hp = Some (hp ! 0, take n hp2)"
    using ne last by (simp add: heap_Pop_def Let_def n_def hp1_def hp2_def)
  have h': "is_heap (take n hp2)"
    unfolding is_heap_def
  proof (intro allI impI)
    fix y assume yl: "y < length (take n hp2)" and y0: "0 < y"
    have yn: "y < n" using yl by simp
    have "parent y < n" using parent_less[OF y0] yn by simp
    then show "sc_score (take n hp2 ! parent y) \<le> sc_score (take n hp2 ! y)"
      using d(4) yn y0 unfolding heap_upto_def by simp
  qed
  have "hp2 = take n hp2 @ [hp2 ! n]"
    using d(1) l1 nl by (metis lessI take_Suc_conv_app_nth take_all order_refl)
  then have "mset hp2 = add_mset (hp2 ! n) (mset (take n hp2))"
    by (metis mset.simps(2) mset_append add_mset_add_single mset.simps(1) union_mset_add_mset_right add.right_neutral)
  then have m: "mset hp = add_mset (hp ! 0) (mset (take n hp2))"
    using d(2) last mset_Swap[OF l0 nl(1)] by (simp add: hp1_def)
  have "Suc (length (take n hp2)) = length hp"
    using d(1) l1 nl by simp
  then show ?thesis using pop h' m by blast
qed

lemma is_heap_Nil: "is_heap []"
  by (simp add: is_heap_def)

lemma heap_Init_Nil: "heap_Init [] = []"
  by (simp add: heap_Init_def)


lemma heap_min_all:
  assumes "is_heap hp" and "y \<in> set hp"
  shows "sc_score (hp ! 0) \<le> sc_score y"
proof -
  obtain x where "x < length hp" "hp ! x = y"
    using assms(2) by (auto simp add: in_set_conv_nth)
  then show ?thesis using heap_root_min[OF assms(1), of x] by simp
qed

lemma topk_loop_props:
  assumes "is_heap hp" and "1 \<le> k" and "int (length hp) \<le> k"
    and "\<forall>r\<in>#R0. \<forall>y\<in>set hp. sc_score r \<le> sc_score y"
    and "R0 \<noteq> {#} \<longrightarrow> int (length hp) = k"
  shows "\<exists>hp' R. topk_loop xs k hp = Some hp' \<and> is_heap hp' \<and> int (length hp') \<le> k \<and>
           mset hp' + R = mset hp + mset xs + R0 \<and>
           (\<forall>r\<in>#R. \<forall>y\<in>set hp'. sc_score r \<le> sc_score y) \<and>
           (R \<noteq> {#} \<longrightarrow> int (length hp') = k)"
  using assms
proof (induction xs arbitrary: hp R0)
  case Nil
  then show ?case by auto
next
  case (Cons x xs)
  show ?case
  proof (cases "int (length hp) < k")
    case True
    let ?hp1 = "heap_Push hp x"
    have p: "is_heap ?hp1" "mset ?hp1 = add_mset x (mset hp)" "length ?hp1 = Suc (length hp)"
      using heap_Push_props[OF Cons.prems(1), of x] by simp_all
    have R0: "R0 = {#}" using Cons.prems(5) True by auto
    have "\<exists>hp' R. topk_loop xs k ?hp1 = Some hp' \<and> is_heap hp' \<and> int (length hp') \<le> k \<and>
           mset hp' + R = mset ?hp1 + mset xs + {#} \<and>
           (\<forall>r\<in>#R. \<forall>y\<in>set hp'. sc_score r \<le> sc_score y) \<and>
           (R \<noteq> {#} \<longrightarrow> int (length hp') = k)"
    proof (rule Cons.IH[OF p(1) Cons.prems(2)])
      show "int (length ?hp1) \<le> k" using True p(3) by simp
      show "\<forall>r\<in>#{#}. \<forall>y\<in>set ?hp1. sc_score r \<le> sc_score y" by simp
      show "{#} \<noteq> {#} \<longrightarrow> int (length ?hp1) = k" by simp
    qed
    then obtain hp' R where r: "topk_loop xs k ?hp1 = Some hp'" "is_heap hp'"
      "int (length hp') \<le> k" "mset hp' + R = mset ?hp1 + mset xs + {#}"
      "\<forall>r\<in>#R. \<forall>y\<in>set hp'. sc_score r \<le> sc_score y" "R \<noteq> {#} \<longrightarrow> int (length hp') = k"
      by blast
    have "topk_loop (x # xs) k hp = Some hp'" using True r(1) by simp
    moreover have "mset hp' + R = mset hp + mset (x # xs) + R0"
      using r(4) by (simp add: p(2) R0)
    ultimately show ?thesis using r(2,3,5,6) by blast
  next
    case False
    then have full: "int (length hp) = k" using Cons.prems(3) by simp
    then have ne: "hp \<noteq> []" using Cons.prems(2) by auto
    then obtain h0 rest where hd: "hp = h0 # rest" by (cases hp) auto
    have h0: "h0 = hp ! 0" by (simp add: hd)
    have mn: "\<And>y. y \<in> set hp \<Longrightarrow> sc_score h0 \<le> sc_score y"
      unfolding h0 by (rule heap_min_all[OF Cons.prems(1)])
    show ?thesis
    proof (cases "sc_score x > sc_score h0")
      case gt: True
      obtain hp1 where pop: "heap_Pop hp = Some (h0, hp1)" and h1: "is_heap hp1"
        and m1: "mset hp = add_mset h0 (mset hp1)" and l1: "Suc (length hp1) = length hp"
        using heap_Pop_props[OF Cons.prems(1) ne] h0 by auto
      let ?hp2 = "heap_Push hp1 x"
      have p: "is_heap ?hp2" "mset ?hp2 = add_mset x (mset hp1)" "length ?hp2 = Suc (length hp1)"
        using heap_Push_props[OF h1, of x] by simp_all
      have "set_mset (mset hp) = set_mset (add_mset h0 (mset hp1))"
        using m1 by simp
      then have s1: "set hp1 \<subseteq> set hp" by auto
      have "set_mset (mset ?hp2) = set_mset (add_mset x (mset hp1))"
        using p(2) by simp
      then have s2: "set ?hp2 = insert x (set hp1)" by simp
      have b2: "\<forall>r\<in>#add_mset h0 R0. \<forall>y\<in>set ?hp2. sc_score r \<le> sc_score y"
      proof (intro ballI)
        fix r y assume r: "r \<in># add_mset h0 R0" and y: "y \<in> set ?hp2"
        have ry: "sc_score h0 \<le> sc_score y"
          using y gt mn s1 unfolding s2 by auto
        have "sc_score r \<le> sc_score h0"
          using r Cons.prems(4) hd by auto
        then show "sc_score r \<le> sc_score y" using ry by simp
      qed
      have "\<exists>hp' R. topk_loop xs k ?hp2 = Some hp' \<and> is_heap hp' \<and> int (length hp') \<le> k \<and>
           mset hp' + R = mset ?hp2 + mset xs + add_mset h0 R0 \<and>
           (\<forall>r\<in>#R. \<forall>y\<in>set hp'. sc_score r \<le> sc_score y) \<and>
           (R \<noteq> {#} \<longrightarrow> int (length hp') = k)"
      proof (rule Cons.IH[OF p(1) Cons.prems(2)])
        show "int (length ?hp2) \<le> k" using full p(3) l1 by simp
        show "\<forall>r\<in>#add_mset h0 R0. \<forall>y\<in>set ?hp2. sc_score r \<le> sc_score y" by (rule b2)
        show "add_mset h0 R0 \<noteq> {#} \<longrightarrow> int (length ?hp2) = k" using full p(3) l1 by simp
      qed
      then obtain hp' R where r: "topk_loop xs k ?hp2 = Some hp'" "is_heap hp'"
        "int (length hp') \<le> k" "mset hp' + R = mset ?hp2 + mset xs + add_mset h0 R0"
        "\<forall>r\<in>#R. \<forall>y\<in>set hp'. sc_score r \<le> sc_score y" "R \<noteq> {#} \<longrightarrow> int (length hp') = k"
        by blast
      have "topk_loop (x # xs) k hp = Some hp'"
        using False gt pop r(1) by (simp add: hd)
      moreover have "mset hp' + R = mset hp + mset (x # xs) + R0"
        using r(4) by (simp add: p(2) m1)
      ultimately show ?thesis using r(2,3,5,6) by blast
    next
      case le: False
      have b2: "\<forall>r\<in>#add_mset x R0. \<forall>y\<in>set hp. sc_score r \<le> sc_score y"
        using Cons.prems(4) le mn by fastforce
      have "\<exists>hp' R. topk_loop xs k hp = Some hp' \<and> is_heap hp' \<and> int (length hp') \<le> k \<and>
           mset hp' + R = mset hp + mset xs + add_mset x R0 \<and>
           (\<forall>r\<in>#R. \<forall>y\<in>set hp'. sc_score r \<le> sc_score y) \<and>
           (R \<noteq> {#} \<longrightarrow> int (length hp') = k)"
      proof (rule Cons.IH[OF Cons.prems(1) Cons.prems(2)])
        show "int (length hp) \<le> k" using full by simp
        show "\<forall>r\<in>#add_mset x R0. \<forall>y\<in>set hp. sc_score r \<le> sc_score y" by (rule b2)
        show "add_mset x R0 \<noteq> {#} \<longrightarrow> int (length hp) = k" using full by simp
      qed
      then obtain hp' R where r: "topk_loop xs k hp = Some hp'" "is_heap hp'"
        "int (length hp') \<le> k" "mset hp' + R = mset hp + mset xs + add_mset x R0"
        "\<forall>r\<in>#R. \<forall>y\<in>set hp'. sc_score r \<le> sc_score y" "R \<noteq> {#} \<longrightarrow> int (length hp') = k"
        by blast
      have "topk_loop (x # xs) k hp = Some hp'"
        using False le r(1) by (simp add: hd)
      moreover have "mset hp' + R = mset hp + mset (x # xs) + R0"
        using r(4) by simp
      ultimately show ?thesis using r(2,3,5,6) by blast
    qed
  qed
qed

lemma drain_props:
  "is_heap hp \<Longrightarrow> n = length hp \<Longrightarrow>
     \<exists>its. drain n hp = Some its \<and> mset its = mset hp \<and> sorted (map sc_score its)"
proof (induction n arbitrary: hp)
  case 0
  then show ?case by simp
next
  case (Suc n)
  then have ne: "hp \<noteq> []" by auto
  obtain hp1 where pop: "heap_Pop hp = Some (hp ! 0, hp1)" and h1: "is_heap hp1"
    and m1: "mset hp = add_mset (hp ! 0) (mset hp1)" and l1: "Suc (length hp1) = length hp"
    using heap_Pop_props[OF Suc.prems(1) ne] by auto
  have "n = length hp1" using l1 Suc.prems(2) by simp
  then obtain its where d: "drain n hp1 = Some its" "mset its = mset hp1"
    "sorted (map sc_score its)"
    using Suc.IH[OF h1] by auto
  have "set_mset (mset hp) = set_mset (add_mset (hp ! 0) (mset its))"
    using d(2) m1 by simp
  then have "set its \<subseteq> set hp" by auto
  then have "\<forall>y\<in>set its. sc_score (hp ! 0) \<le> sc_score y"
    using heap_min_all[OF Suc.prems(1)] by auto
  then have "sorted (map sc_score (hp ! 0 # its))"
    using d(3) by simp
  then show ?case
    using pop d m1 by simp
qed

section \<open>Properties of the PYMK computation\<close>

lemma topK_props:
  assumes "1 \<le> k"
  shows "\<exists>its R. topK out k = Some (rev (map toSuggestion its)) \<and>
           int (length its) \<le> k \<and> sorted (map sc_score its) \<and>
           mset its + R = mset out \<and>
           (\<forall>r\<in>#R. \<forall>y\<in>set its. sc_score r \<le> sc_score y) \<and>
           (R \<noteq> {#} \<longrightarrow> int (length its) = k)"
proof -
  have "\<exists>hp R. topk_loop out k [] = Some hp \<and> is_heap hp \<and> int (length hp) \<le> k \<and>
           mset hp + R = mset [] + mset out + {#} \<and>
           (\<forall>r\<in>#R. \<forall>y\<in>set hp. sc_score r \<le> sc_score y) \<and>
           (R \<noteq> {#} \<longrightarrow> int (length hp) = k)"
    using assms by (intro topk_loop_props) (simp_all add: is_heap_Nil)
  then obtain hp R where h: "topk_loop out k [] = Some hp" "is_heap hp" "int (length hp) \<le> k"
    "mset hp + R = mset out" "\<forall>r\<in>#R. \<forall>y\<in>set hp. sc_score r \<le> sc_score y"
    "R \<noteq> {#} \<longrightarrow> int (length hp) = k"
    by auto
  obtain its where d: "drain (length hp) hp = Some its" "mset its = mset hp"
    "sorted (map sc_score its)"
    using drain_props[OF h(2) refl] by blast
  have l: "length its = length hp" using d(2) by (metis size_mset)
  have s: "set its = set hp" using d(2) by (metis set_mset_mset)
  have t: "topK out k = Some (rev (map toSuggestion its))"
    by (simp add: topK_def heap_Init_Nil h(1) d(1))
  have "int (length its) \<le> k" using h(3) l by simp
  moreover have "mset its + R = mset out" using h(4) d(2) by simp
  moreover have "\<forall>r\<in>#R. \<forall>y\<in>set its. sc_score r \<le> sc_score y" using h(5) s by simp
  moreover have "R \<noteq> {#} \<longrightarrow> int (length its) = k" using h(6) l by simp
  ultimately show ?thesis
    using t d(3) by blast
qed

lemma Score_toSuggestion: "Score (toSuggestion it) = sc_score it"
  by (simp add: toSuggestion_def)

lemma UserID_toSuggestion: "UserID (toSuggestion it) = sc_id it"
  by (simp add: toSuggestion_def)

lemma iters_okD: "iters_ok os \<Longrightarrow> iter_ok (os t)"
  by (simp add: iters_ok_def)

lemma iters_ok_key_orders: "iters_ok key_orders"
  by (simp add: iters_ok_def key_orders_def iter_ok_key_order)

lemma Service_PYMK_eq:
  "Service_PYMK os s t_get t_set u k0 exclude m =
     (let key = cache_key s u k0;
          (got, c1) = lru_Get (svc_cache s) t_get key;
          m1 = snd (lruCache_Get (svc_cache s) t_get key m)
      in case got of
           Some v \<Rightarrow> Some ((v, s\<lparr> svc_cache := c1 \<rparr>), m1)
         | None \<Rightarrow>
             (case PYMK_compute os s u (ck_k key) exclude of
                None \<Rightarrow> None
              | Some res \<Rightarrow>
                  Some ((res, s\<lparr> svc_cache := lru_Set c1 t_set key res \<rparr>),
                        snd (lruCache_Set c1 t_set key res m1))))"
proof -
  obtain got c1 m1
    where g: "lruCache_Get (svc_cache s) t_get (cache_key s u k0) m = ((got, c1), m1)"
    by (cases "lruCache_Get (svc_cache s) t_get (cache_key s u k0) m") auto
  have l: "lru_Get (svc_cache s) t_get (cache_key s u k0) = (got, c1)"
    using lruCache_Get_fst[of "svc_cache s" t_get "cache_key s u k0" m] by (simp add: g)
  show ?thesis
    unfolding Service_PYMK_def Let_def g l
    by (simp add: case_prod_beta lruCache_Set_fst split: option.splits)
qed

lemma PYMK_eq:
  "PYMK os s t_get t_set u k0 exclude =
     (let key = cache_key s u k0;
          (got, c1) = lru_Get (svc_cache s) t_get key
      in case got of
           Some v \<Rightarrow> Some (v, s\<lparr> svc_cache := c1 \<rparr>)
         | None \<Rightarrow>
             (case PYMK_compute os s u (ck_k key) exclude of
                None \<Rightarrow> None
              | Some res \<Rightarrow> Some (res, s\<lparr> svc_cache := lru_Set c1 t_set key res \<rparr>)))"
  unfolding PYMK_def Service_PYMK_eq Let_def
  by (simp split: option.splits prod.splits)

lemma Service_PYMK_fst:
  "map_option fst (Service_PYMK os s t_get t_set u k0 exclude m)
     = PYMK os s t_get t_set u k0 exclude"
  unfolding PYMK_eq Service_PYMK_eq Let_def
  by (simp split: option.splits prod.splits)

lemma PYMK_miss:
  assumes "fst (lru_Get (svc_cache s) t_get (cache_key s u k0)) = None"
  shows "PYMK os s t_get t_set u k0 exclude =
           (case PYMK_compute os s u (ck_k (cache_key s u k0)) exclude of
              None \<Rightarrow> None
            | Some res \<Rightarrow>
                Some (res, s\<lparr> svc_cache := lru_Set (snd (lru_Get (svc_cache s) t_get (cache_key s u k0)))
                                              t_set (cache_key s u k0) res \<rparr>))"
  using assms by (cases "lru_Get (svc_cache s) t_get (cache_key s u k0)") (auto simp add: PYMK_eq Let_def split: option.splits)

lemma ck_k_cache_key: "ck_k (cache_key s u k0) = (if k0 \<le> 0 then 20 else k0)"
  by (simp add: cache_key_def Let_def)

lemma sorted_desc_rev:
  "sorted (map f its) \<Longrightarrow> sorted_wrt (\<lambda>a b. b \<le> a) (map (f :: 'a \<Rightarrow> real) (rev its))"
  by (simp add: sorted_wrt_rev rev_map[symmetric] sorted_wrt_map sorted_map)

text \<open>
  Claim C3 (top-K selection). A call of \<open>PYMK\<close> that misses the cache returns a list (it
  does not panic). The list is made of candidates of the computation: it is the list \<open>its\<close>
  of scored candidates, reversed and turned into suggestions, and \<open>its\<close> together with the
  omitted candidates \<open>R\<close> are exactly the scored candidates, each as often as it was scored.
  The list has \<open>k\<close> suggestions, or all the candidates when they are fewer than \<open>k\<close>, \<open>k\<close>
  being 20 when the argument is not positive; so it has at most \<open>k\<close>. The scores of the list
  do not increase; and every omitted candidate, as every candidate whose identifier is
  not in the list, has a score no greater than that of every returned suggestion.
\<close>

theorem top_k_selection:
  assumes "fst (lru_Get (svc_cache s) t_get (cache_key s u k0)) = None"
  shows "\<exists>res s' its R.
           PYMK os s t_get t_set u k0 exclude = Some (res, s') \<and>
           res = rev (map toSuggestion its) \<and>
           mset its + R = mset (scoreAll os s u (gather os s u exclude)) \<and>
           int (length res)
             = min (if k0 \<le> 0 then 20 else k0)
                   (int (length (scoreAll os s u (gather os s u exclude)))) \<and>
           int (length res) \<le> (if k0 \<le> 0 then 20 else k0) \<and>
           sorted_wrt (\<lambda>a b. b \<le> a) (map Score res) \<and>
           (\<forall>c \<in># R. \<forall>r \<in> set res. sc_score c \<le> Score r) \<and>
           (\<forall>c \<in> set (scoreAll os s u (gather os s u exclude)).
              sc_id c \<notin> UserID ` set res \<longrightarrow> (\<forall>r \<in> set res. sc_score c \<le> Score r))"
proof -
  let ?k = "if k0 \<le> 0 then 20 else k0"
  let ?st = "gather os s u exclude"
  let ?out = "scoreAll os s u ?st"
  have k1: "1 \<le> ?k" by simp
  obtain its R where t: "topK ?out ?k = Some (rev (map toSuggestion its))"
    "int (length its) \<le> ?k" "sorted (map sc_score its)" "mset its + R = mset ?out"
    "\<forall>r\<in>#R. \<forall>y\<in>set its. sc_score r \<le> sc_score y"
    "R \<noteq> {#} \<longrightarrow> int (length its) = ?k"
    using topK_props[OF k1, of ?out] by blast
  let ?res = "rev (map toSuggestion its)"
  have sz: "length its + size R = length ?out"
    using t(4) by (metis size_mset size_union)
  have n: "int (length ?res) = min ?k (int (length ?out))"
  proof (cases "R = {#}")
    case True
    then show ?thesis using sz t(2) by simp
  next
    case False
    then have "0 < size R" by (simp add: nonempty_has_size)
    then show ?thesis using sz t(6) False by simp
  qed
  have a: "int (length ?res) \<le> ?k" using t(2) by simp
  have "map Score ?res = map sc_score (rev its)"
    by (simp add: rev_map Score_toSuggestion comp_def)
  then have b: "sorted_wrt (\<lambda>a b. b \<le> a) (map Score ?res)"
    using sorted_desc_rev[OF t(3)] by simp
  have r: "\<forall>c \<in># R. \<forall>r \<in> set ?res. sc_score c \<le> Score r"
    using t(5) by (auto simp add: Score_toSuggestion)
  have d: "\<forall>r \<in> set ?res. sc_score x \<le> Score r"
    if x: "x \<in> set ?out" and nx: "sc_id x \<notin> UserID ` set ?res" for x
  proof -
    have "x \<notin> set its"
      using nx by (force simp add: UserID_toSuggestion image_iff)
    moreover have "x \<in># mset its + R" using x t(4) by simp
    ultimately have "x \<in># R" by simp
    then show ?thesis using t(5) by (auto simp add: Score_toSuggestion)
  qed
  have c: "PYMK_compute os s u ?k exclude = Some ?res"
  proof (cases "card (dom ?st) = 0")
    case True
    have "dom ?st = {}" using True by simp
    then have "candidates os s u ?st = []"
      by (simp add: candidates_def Let_def List.map_filter_def domIff)
    then have o: "?out = []" by (simp add: scoreAll_def)
    then have "its = []" using t(4) by simp
    then show ?thesis
      using True by (simp add: PYMK_compute_def Let_def)
  next
    case False
    then show ?thesis
      using t(1) by (simp add: PYMK_compute_def Let_def)
  qed
  have p: "PYMK os s t_get t_set u k0 exclude
             = Some (?res, s\<lparr> svc_cache := lru_Set (snd (lru_Get (svc_cache s) t_get (cache_key s u k0)))
                                              t_set (cache_key s u k0) ?res \<rparr>)"
    using c by (simp add: PYMK_miss[OF assms] ck_k_cache_key)
  show ?thesis
    using p t(4) n a b r d by blast
qed

lemma toStdSet_set: "toStdSet ids = set ids"
  by (simp add: toStdSet_def)

lemma expand_inner_get:
  "distinct cs \<Longrightarrow>
     expand_inner u oneHop ex w cs st c =
       (if eligible u oneHop ex c \<and> c \<in> set cs
        then Some \<lparr> cs_common = common_of st c + 1, cs_aa = aa_of st c + w \<rparr>
        else st c)"
proof (induction cs arbitrary: st)
  case Nil
  then show ?case by simp
next
  case (Cons a cs)
  then have d: "distinct cs" and a: "a \<notin> set cs" by simp_all
  show ?case
  proof (cases "eligible u oneHop ex a")
    case False
    then show ?thesis
      using Cons.IH[OF d, of st] by (auto simp add: eligible_def)
  next
    case True
    then show ?thesis
      using Cons.IH[OF d] a
      by (auto simp add: eligible_def Let_def common_of_def aa_of_def split: option.splits)
  qed
qed


lemma distinct_capped: "distinct xs \<Longrightarrow> distinct (capped cfg xs)"
  by (simp add: capped_def)

lemma set_capped: "set (capped cfg xs) \<subseteq> set xs"
  by (auto simp add: capped_def dest: in_set_takeD)

lemma distinct_Following: "iter_ok ord \<Longrightarrow> distinct (Following ord g n)"
  by (simp add: Following_def iter_ok_distinct)

lemma expand_get:
  assumes "iters_ok os"
  shows "expand os p g cfg u oneHop ex ns st c =
     (if eligible u oneHop ex c \<and> via os p g cfg c ns \<noteq> []
      then Some \<lparr> cs_common = common_of st c + int (length (via os p g cfg c ns)),
                  cs_aa = aa_of st c
                    + sum_list (map (\<lambda>n. aaWeight (DegreeOut g n + DegreeIn g n))
                                   (via os p g cfg c ns)) \<rparr>
      else st c)"
proof (induction ns arbitrary: st)
  case Nil
  then show ?case by (simp add: via_def)
next
  case (Cons n ns)
  let ?nb = "capped cfg (Following (os (SiteNeighbors p n)) g n)"
  let ?w = "aaWeight (DegreeOut g n + DegreeIn g n)"
  let ?st1 = "expand_inner u oneHop ex ?w ?nb st"
  have d: "distinct ?nb" by (rule distinct_capped[OF distinct_Following[OF iters_okD[OF assms]]])
  have s1: "?st1 c = (if eligible u oneHop ex c \<and> c \<in> set ?nb
        then Some \<lparr> cs_common = common_of st c + 1, cs_aa = aa_of st c + ?w \<rparr>
        else st c)"
    by (rule expand_inner_get[OF d])
  have e: "expand os p g cfg u oneHop ex (n # ns) st = expand os p g cfg u oneHop ex ns ?st1"
    by (simp add: Let_def)
  have v: "via os p g cfg c (n # ns) = (if c \<in> set ?nb then n # via os p g cfg c ns else via os p g cfg c ns)"
    by (simp add: via_def)
  show ?case
  proof (cases "eligible u oneHop ex c \<and> c \<in> set ?nb")
    case True
    then have "common_of ?st1 c = common_of st c + 1" "aa_of ?st1 c = aa_of st c + ?w"
      "?st1 c = Some \<lparr> cs_common = common_of st c + 1, cs_aa = aa_of st c + ?w \<rparr>"
      using s1 by (simp_all add: common_of_def aa_of_def)
    then show ?thesis
      using True unfolding e Cons.IH[of ?st1] v by simp
  next
    case False
    then have "?st1 c = st c"
      using s1 by auto
    then have "common_of ?st1 c = common_of st c" "aa_of ?st1 c = aa_of st c" "?st1 c = st c"
      by (simp_all add: common_of_def aa_of_def)
    then show ?thesis
      using False unfolding e Cons.IH[of ?st1] v by auto
  qed
qed

lemma via_append: "via os p g cfg c (xs @ ys) = via os p g cfg c xs @ via os p g cfg c ys"
  by (simp add: via_def)

lemma oneHop_sets:
  assumes "iter_ok ord"
  shows "toStdSet (Following ord g u) = following_set g u"
    and "toStdSet (Followers ord g u) = followers_set g u"
  by (simp_all add: toStdSet_set Following_def Followers_def iter_ok_set[OF assms])

lemma gather_get:
  assumes "iters_ok os"
  shows "gather os s u ex c =
     (let g = svc_G s; cfg = svc_C s;
          oneHop = following_set g u \<union> followers_set g u;
          vs = via os 1 g cfg c (os (SiteRange 1) (following_set g u))
                 @ via os 2 g cfg c (os (SiteRange 2) (followers_set g u))
      in if eligible u oneHop ex c \<and> vs \<noteq> []
         then Some \<lparr> cs_common = int (length vs),
                     cs_aa = sum_list (map (\<lambda>n. aaWeight (DegreeOut g n + DegreeIn g n)) vs) \<rparr>
         else None)"
  unfolding gather_def Let_def oneHop_sets[OF iters_okD[OF assms]] expand_get[OF assms]
  by (auto simp add: common_of_def aa_of_def)


lemma cosine_nonneg: "0 \<le> cosine a b"
  by (simp add: cosine_def Let_def split: prod.splits)

lemma cosine_mismatch: "length a = 0 \<or> length a \<noteq> length b \<Longrightarrow> cosine a b = 0"
  by (auto simp add: cosine_def)

lemma intersect_loop_le: "intersect_loop xs b capAt cnt \<le> cnt + length xs"
proof (induction xs arbitrary: cnt)
  case Nil
  then show ?case by simp
next
  case (Cons a xs)
  have "intersect_loop xs b capAt (cnt + 1) \<le> cnt + 1 + length xs"
    "intersect_loop xs b capAt cnt \<le> cnt + length xs"
    by (rule Cons.IH)+
  then show ?case by auto
qed

lemma intersectCount_le:
  assumes "iter_ok ord"
  shows "intersectCount ord a b capAt \<le> card a" and "intersectCount ord a b capAt \<le> card b"
proof -
  have l: "length (ord S) = card S" for S
    using iter_ok_set[OF assms, of S] iter_ok_distinct[OF assms, of S]
    by (metis distinct_card)
  show "intersectCount ord a b capAt \<le> card a"
    using intersect_loop_le[of "ord a" b capAt 0] intersect_loop_le[of "ord b" a capAt 0]
    by (auto simp add: intersectCount_def l)
  show "intersectCount ord a b capAt \<le> card b"
    using intersect_loop_le[of "ord a" b capAt 0] intersect_loop_le[of "ord b" a capAt 0]
    by (auto simp add: intersectCount_def l)
qed

lemma unionSize_nonneg: "iter_ok ord \<Longrightarrow> 0 \<le> unionSize ord a b"
  using intersectCount_le(1)[of ord a b 0] by (simp add: unionSize_def Let_def)

lemma aaWeight_nonneg: "0 \<le> aaWeight d"
proof (cases "d > 0")
  case True
  have "1 < real (1 + d) + 1 / 10 ^ 9" using True by simp
  then have "0 < ln (real (1 + d) + 1 / 10 ^ 9)" by (rule ln_gt_zero)
  then show ?thesis using True by (simp add: aaWeight_def)
next
  case False
  then show ?thesis by (simp add: aaWeight_def)
qed

lemma features_fields:
  "sc_id (features os g emb uvec outU ident cs) = ident"
  "sc_common (features os g emb uvec outU ident cs) = cs_common cs"
  "sc_aa (features os g emb uvec outU ident cs) = cs_aa cs"
  "0 \<le> sc_cos (features os g emb uvec outU ident cs)"
  by (simp_all add: features_def Let_def cosine_nonneg split: option.splits)

lemma features_cos_missing:
  "uvec = None \<or> emb = None \<or> (\<exists>e. emb = Some e \<and> embeds_Get e ident = None) \<Longrightarrow>
     sc_cos (features os g emb uvec outU ident cs) = 0"
  by (auto simp add: features_def Let_def split: option.splits)

lemma features_jaccard_nonneg:
  assumes "iters_ok os"
  shows "0 \<le> sc_jaccard (features os g emb uvec outU ident cs)"
proof -
  have "0 \<le> real_of_int (unionSize (os (SiteUnion ident)) outU
                             (toStdSet (Following (os (SiteCandidate ident)) g ident)))
             + 1 / 10 ^ 9"
    using unionSize_nonneg[OF iters_okD[OF assms, of "SiteUnion ident"], of outU
            "toStdSet (Following (os (SiteCandidate ident)) g ident)"]
    by simp
  then show ?thesis
    by (simp add: features_def Let_def)
qed

lemma candidates_mem:
  assumes "x \<in> set (candidates os s u st)"
  shows "\<exists>cs. st (sc_id x) = Some cs \<and>
           x = features os (svc_G s) (svc_E s)
                 (case svc_E s of None \<Rightarrow> None | Some e \<Rightarrow> embeds_Get e u)
                 (toStdSet (Following (os SiteFollowing) (svc_G s) u)) (sc_id x) cs"
  using assms
  by (auto simp add: candidates_def Let_def List.map_filter_def features_fields)

lemma weigh_fields:
  "sc_id (weigh cfg out c) = sc_id c"
  "sc_common (weigh cfg out c) = sc_common c"
  "sc_jaccard (weigh cfg out c) = sc_jaccard c"
  "sc_aa (weigh cfg out c) = sc_aa c"
  "sc_cos (weigh cfg out c) = sc_cos c"
  "sc_score (weigh cfg out c) =
     WCommon cfg * nCommon out c + WJaccard cfg * nJ out c
       + WAA cfg * nAA out c + WCosine cfg * nCos out c"
  by (simp_all add: weigh_def)

lemma scoreAll_mem:
  "x \<in> set (scoreAll os s u st) \<Longrightarrow>
     \<exists>c \<in> set (candidates os s u st). x = weigh (svc_C s) (candidates os s u st) c"
  by (auto simp add: scoreAll_def Let_def)

lemma compute_mem:
  assumes "1 \<le> k" and "PYMK_compute os s u k ex = Some res" and "r \<in> set res"
  shows "\<exists>x \<in> set (scoreAll os s u (gather os s u ex)). r = toSuggestion x"
proof -
  let ?out = "scoreAll os s u (gather os s u ex)"
  obtain its R where t: "topK ?out k = Some (rev (map toSuggestion its))"
    "mset its + R = mset ?out"
    using topK_props[OF assms(1), of ?out] by blast
  have "set_mset (mset its + R) = set_mset (mset ?out)" using t(2) by simp
  then have sub: "set its \<subseteq> set ?out" by auto
  have "card (dom (gather os s u ex)) \<noteq> 0"
    using assms(2,3) by (auto simp add: PYMK_compute_def Let_def split: if_splits)
  then have "res = rev (map toSuggestion its)"
    using assms(2) t(1) by (simp add: PYMK_compute_def Let_def)
  then show ?thesis using assms(3) sub by auto
qed

lemma PYMK_miss_compute:
  assumes "fst (lru_Get (svc_cache s) t_get (cache_key s u k0)) = None"
    and "PYMK os s t_get t_set u k0 exclude = Some (res, s')"
  shows "PYMK_compute os s u (if k0 \<le> 0 then 20 else k0) exclude = Some res"
  using assms(2) unfolding PYMK_miss[OF assms(1)] ck_k_cache_key
  by (auto split: option.splits)

text \<open>What is known of every suggestion computed on a miss.\<close>

lemma computed_suggestion:
  assumes ok: "iters_ok os" and k: "1 \<le> k"
    and c: "PYMK_compute os s u k ex = Some res" and r: "r \<in> set res"
  shows "\<exists>x cs. x \<in> set (candidates os s u (gather os s u ex)) \<and>
           r = toSuggestion (weigh (svc_C s) (candidates os s u (gather os s u ex)) x) \<and>
           gather os s u ex (UserID r) = Some cs \<and> sc_id x = UserID r \<and>
           sc_common x = cs_common cs \<and> sc_aa x = cs_aa cs"
proof -
  obtain y where y: "y \<in> set (scoreAll os s u (gather os s u ex))" "r = toSuggestion y"
    using compute_mem[OF k c r] by blast
  obtain x where x: "x \<in> set (candidates os s u (gather os s u ex))"
    "y = weigh (svc_C s) (candidates os s u (gather os s u ex)) x"
    using scoreAll_mem[OF y(1)] by blast
  obtain cs where cs: "gather os s u ex (sc_id x) = Some cs"
    "x = features os (svc_G s) (svc_E s)
                 (case svc_E s of None \<Rightarrow> None | Some e \<Rightarrow> embeds_Get e u)
                 (toStdSet (Following (os SiteFollowing) (svc_G s) u)) (sc_id x) cs"
    using candidates_mem[OF x(1)] by blast
  have i: "UserID r = sc_id x" by (simp add: y(2) x(2) UserID_toSuggestion weigh_fields)
  have "sc_common x = cs_common cs" "sc_aa x = cs_aa cs"
    by (subst cs(2), simp add: features_fields)+
  then show ?thesis using x(1) y(2) x(2) cs(1) i by auto
qed

section \<open>Evaluating the service on concrete graphs\<close>

lemma iter_ok_empty: "iter_ok ord \<Longrightarrow> ord {} = []"
  using iter_ok_set[of ord "{}"] by simp

lemma iter_ok_single:
  assumes "iter_ok ord"
  shows "ord {x} = [x]"
proof (cases "ord {x}")
  case Nil
  then show ?thesis using iter_ok_set[OF assms, of "{x}"] by simp
next
  case (Cons a l)
  have s: "set (a # l) = {x}" and d: "distinct (a # l)"
    using iter_ok_set[OF assms, of "{x}"] iter_ok_distinct[OF assms, of "{x}"] Cons by simp_all
  have "a = x" using s by auto
  moreover have "l = []"
  proof (cases l)
    case Nil
    then show ?thesis .
  next
    case (Cons b m)
    then have "b = x" "b \<noteq> a" using s d by auto
    then show ?thesis using \<open>a = x\<close> by simp
  qed
  ultimately show ?thesis using Cons by simp
qed

lemma iter_ok_length: "iter_ok ord \<Longrightarrow> length (ord S) = card S"
  using iter_ok_set[of ord S] iter_ok_distinct[of ord S] by (metis distinct_card)

lemma via_card:
  assumes "iters_ok os" and "iter_ok ord"
  shows "length (via os p g cfg c (ord S))
           = card {n \<in> S. c \<in> set (capped cfg (Following (os (SiteNeighbors p n)) g n))}"
proof -
  have "length (via os p g cfg c (ord S))
          = card ({n. c \<in> set (capped cfg (Following (os (SiteNeighbors p n)) g n))}
                    \<inter> set (ord S))"
    unfolding via_def by (rule distinct_length_filter[OF iter_ok_distinct[OF assms(2)]])
  also have "{n. c \<in> set (capped cfg (Following (os (SiteNeighbors p n)) g n))} \<inter> set (ord S)
               = {n \<in> S. c \<in> set (capped cfg (Following (os (SiteNeighbors p n)) g n))}"
    by (auto simp add: iter_ok_set[OF assms(2)])
  finally show ?thesis .
qed

lemma topK_single:
  assumes "1 \<le> k"
  shows "topK [x] k = Some [toSuggestion x]"
proof -
  have "parent 0 = 0" by (simp add: parent_def)
  then have u: "up [x] 0 = [x]" by (intro up_unfold_stop) simp
  have d: "down [x] 0 0 = [x]" by (intro down_unfold_stop1) simp
  have p: "heap_Pop [x] = Some (x, [])"
    by (simp add: heap_Pop_def Let_def Swap_def d)
  have "heap_Push [] x = [x]"
    by (simp add: heap_Push_def Let_def u)
  then have "topk_loop [x] k [] = Some [x]"
    using assms by simp
  then show ?thesis
    by (simp add: topK_def heap_Init_Nil p)
qed

lemma fresh_cache_miss: "table c = Map.empty \<Longrightarrow> lru_Get c now key = (None, c)"
  by (simp add: lru_Get_eq)

lemma svc_cache_new:
  "capacity (svc_cache (NewService g e cfg)) = CacheSize cfg"
  "ttl (svc_cache (NewService g e cfg)) = CacheTTL cfg"
  "ll (svc_cache (NewService g e cfg)) = []"
  "table (svc_cache (NewService g e cfg)) = Map.empty"
  "onHit (svc_cache (NewService g e cfg)) = Some (PYMKCache_Inc ''hit'')"
  "onMiss (svc_cache (NewService g e cfg)) = Some (PYMKCache_Inc ''miss'')"
  "onEvict (svc_cache (NewService g e cfg)) = Some (PYMKCache_Inc ''evict'')"
  by (simp_all add: NewService_def newLRU_def)

lemma fresh_service_miss:
  "fst (lru_Get (svc_cache (NewService g e cfg)) t_get key) = None"
  by (simp add: fresh_cache_miss svc_cache_new)

lemma following_set_tri:
  "following_set tri_graph 1 = {2, 3}" "following_set tri_graph 2 = {4}"
  "following_set tri_graph 3 = {4}" "following_set tri_graph 4 = {}"
  "followers_set tri_graph 1 = {}"
  by (auto simp add: tri_graph_def adj_simps following_set_new followers_set_new)

lemma following_set_mutual:
  "following_set mutual_graph 1 = {2}" "following_set mutual_graph 2 = {1, 4}"
  "followers_set mutual_graph 1 = {2}"
  by (auto simp add: mutual_graph_def adj_simps following_set_new followers_set_new)

lemma PYMK_single:
  assumes ok: "iters_ok os"
    and miss: "fst (lru_Get (svc_cache s) t_get (cache_key s u k0)) = None"
    and g: "\<And>c. gather os s u ex c = (if c = a then Some cs else None)"
  shows "\<exists>r. PYMK os s t_get t_set u k0 ex
               = Some ([r], s\<lparr> svc_cache := lru_Set (snd (lru_Get (svc_cache s) t_get (cache_key s u k0)))
                                              t_set (cache_key s u k0) [r] \<rparr>) \<and>
             UserID r = a \<and> CommonNeighbors r = cs_common cs"
proof -
  let ?st = "gather os s u ex"
  have dm: "dom ?st = {a}" by (auto simp add: g split: if_splits)
  let ?f = "features os (svc_G s) (svc_E s)
              (case svc_E s of None \<Rightarrow> None | Some e \<Rightarrow> embeds_Get e u)
              (toStdSet (Following (os SiteFollowing) (svc_G s) u)) a cs"
  have c: "candidates os s u ?st = [?f]"
    by (simp add: candidates_def Let_def dm iter_ok_single[OF iters_okD[OF ok]] List.map_filter_def g)
  let ?x = "weigh (svc_C s) [?f] ?f"
  have sa: "scoreAll os s u ?st = [?x]"
    by (simp add: scoreAll_def Let_def c)
  have k1: "1 \<le> (if k0 \<le> 0 then 20 else k0)" by simp
  have cd: "card (dom ?st) = 1" by (simp add: dm)
  have "PYMK_compute os s u (if k0 \<le> 0 then 20 else k0) ex = Some [toSuggestion ?x]"
    unfolding PYMK_compute_def Let_def cd sa topK_single[OF k1] by simp
  then have "PYMK os s t_get t_set u k0 ex
               = Some ([toSuggestion ?x], s\<lparr> svc_cache := lru_Set (snd (lru_Get (svc_cache s) t_get (cache_key s u k0)))
                                              t_set (cache_key s u k0) [toSuggestion ?x] \<rparr>)"
    by (simp add: PYMK_miss[OF miss] ck_k_cache_key)
  moreover have "UserID (toSuggestion ?x) = a"
    by (simp add: UserID_toSuggestion weigh_fields features_fields)
  moreover have "CommonNeighbors (toSuggestion ?x) = cs_common cs"
    by (simp add: toSuggestion_def weigh_fields features_fields)
  ultimately show ?thesis by blast
qed

lemma capped_short:
  "MaxExpandPerNeighbor cfg \<le> 0 \<or> int (length xs) \<le> MaxExpandPerNeighbor cfg \<Longrightarrow>
     capped cfg xs = xs"
  by (auto simp add: capped_def)

lemma capped_single: "capped cfg [x] = [x]"
  by (simp add: capped_def)

lemma svc_fields:
  "svc_G (NewService g e cfg) = g" "svc_E (NewService g e cfg) = e"
  "svc_C (NewService g e cfg) = cfg"
  by (simp_all add: NewService_def)

lemma gather_tri:
  assumes ok: "iters_ok os"
  shows "\<exists>w. \<forall>c. gather os (NewService tri_graph e cfg) 1 None c
           = (if c = 4 then Some \<lparr> cs_common = 2, cs_aa = w \<rparr> else None)"
proof -
  let ?g = "tri_graph"
  have nb: "capped cfg (Following (os t) ?g n) = [4]" if "n \<in> {2, 3}" for n t
    using that
    by (auto simp add: Following_def following_set_tri iter_ok_single[OF iters_okD[OF ok]]
          capped_single)
  have v1: "via os p ?g cfg c (os t {2, 3}) = (if c = 4 then os t {2, 3} else [])" for c p t
  proof -
    have "filter (\<lambda>n. c \<in> set (capped cfg (Following (os (SiteNeighbors p n)) ?g n))) (os t {2, 3})
            = filter (\<lambda>n. c = 4) (os t {2, 3})"
      by (rule filter_cong[OF refl]) (auto simp add: iter_ok_set[OF iters_okD[OF ok]] nb)
    then show ?thesis by (simp add: via_def)
  qed
  have v2: "via os p ?g cfg c (os t {}) = []" for c p t
    by (simp add: via_def iter_ok_empty[OF iters_okD[OF ok]])
  have l: "length (os t {2, 3 :: uid}) = 2" for t
    by (simp add: iter_ok_length[OF iters_okD[OF ok]])
  have el: "eligible 1 {2, 3} None (4 :: uid)"
    by (simp add: eligible_def excluded_def)
  let ?w = "sum_list (map (\<lambda>n. aaWeight (DegreeOut ?g n + DegreeIn ?g n)) (os (SiteRange 1) {2, 3}))"
  have "gather os (NewService tri_graph e cfg) 1 None c
           = (if c = 4 then Some \<lparr> cs_common = 2, cs_aa = ?w \<rparr> else None)" for c
  proof -
    have ne: "os t {2, 3 :: uid} \<noteq> []" for t using l[of t] by auto
    show ?thesis
      unfolding gather_get[OF ok] Let_def svc_fields following_set_tri
      using el l ne by (simp add: v1 v2)
  qed
  then show ?thesis by blast
qed

lemma tri_scenario:
  assumes ok: "iters_ok os"
  shows "\<exists>r s'. PYMK os (NewService tri_graph e cfg) t_get t_set 1 5 None = Some ([r], s') \<and>
                UserID r = 4 \<and> CommonNeighbors r = 2"
proof -
  obtain w where g: "\<And>c. gather os (NewService tri_graph e cfg) 1 None c
           = (if c = 4 then Some \<lparr> cs_common = 2, cs_aa = w \<rparr> else None)"
    using gather_tri[OF ok] by blast
  have m: "fst (lru_Get (svc_cache (NewService tri_graph e cfg)) t_get
                 (cache_key (NewService tri_graph e cfg) 1 5)) = None"
    by (rule fresh_service_miss)
  obtain r where "PYMK os (NewService tri_graph e cfg) t_get t_set 1 5 None
               = Some ([r], (NewService tri_graph e cfg)\<lparr> svc_cache :=
                    lru_Set (snd (lru_Get (svc_cache (NewService tri_graph e cfg)) t_get
                                    (cache_key (NewService tri_graph e cfg) 1 5)))
                      t_set (cache_key (NewService tri_graph e cfg) 1 5) [r] \<rparr>)"
    "UserID r = 4" "CommonNeighbors r = cs_common \<lparr> cs_common = 2, cs_aa = w \<rparr>"
    using PYMK_single[OF ok m g, of t_set] by blast
  then show ?thesis by auto
qed

section \<open>The claims about PYMK\<close>

lemma PYMK_total_miss:
  assumes "fst (lru_Get (svc_cache s) t_get (cache_key s u k0)) = None"
  shows "\<exists>res. PYMK_compute os s u (if k0 \<le> 0 then 20 else k0) ex = Some res \<and>
           PYMK os s t_get t_set u k0 ex
             = Some (res, s\<lparr> svc_cache := lru_Set (snd (lru_Get (svc_cache s) t_get (cache_key s u k0)))
                                              t_set (cache_key s u k0) res \<rparr>)"
proof -
  have k1: "1 \<le> (if k0 \<le> 0 then 20 else k0)" by simp
  obtain its where "topK (scoreAll os s u (gather os s u ex)) (if k0 \<le> 0 then 20 else k0)
                      = Some (rev (map toSuggestion its))"
    using topK_props[OF k1] by blast
  then have "\<exists>res. PYMK_compute os s u (if k0 \<le> 0 then 20 else k0) ex = Some res"
    by (cases "card (dom (gather os s u ex)) = 0") (simp_all add: PYMK_compute_def Let_def)
  then obtain res where "PYMK_compute os s u (if k0 \<le> 0 then 20 else k0) ex = Some res"
    by blast
  then show ?thesis
    by (simp add: PYMK_miss[OF assms] ck_k_cache_key)
qed

text \<open>
  Claim C9 (the common-neighbour counter), as the code computes it. On a cache miss, for
  every choice of the iteration orders, the \<open>common_neighbors\<close> of a returned suggestion is
  the number of followees of \<open>u\<close> whose followee list, as fetched and capped in the first
  call of \<open>expand\<close>, holds the candidate, plus the number of followers of \<open>u\<close> whose
  followee list, as fetched and capped in the second call of \<open>expand\<close>, holds it. A
  neighbour that both follows \<open>u\<close> and is followed by \<open>u\<close> is expanded in both calls: it
  counts once for each call in which its capped list holds the candidate, and the two
  lists may differ, being cut from two iterations of one map. In the triangle scenario,
  for any embedding store and configuration, \<open>PYMK(1, 5, nil)\<close> on a fresh service returns
  exactly one suggestion, user 4 with \<open>common_neighbors\<close> 2.
\<close>

theorem common_neighbors_count:
  assumes "iters_ok os"
  shows "(fst (lru_Get (svc_cache s) t_get (cache_key s u k0)) = None \<longrightarrow>
            (\<exists>res s'. PYMK os s t_get t_set u k0 exclude = Some (res, s') \<and>
               (\<forall>r \<in> set res.
                  CommonNeighbors r =
                    int (card {n \<in> following_set (svc_G s) u.
                           UserID r \<in> set (capped (svc_C s) (Following (os (SiteNeighbors 1 n)) (svc_G s) n))})
                    + int (card {n \<in> followers_set (svc_G s) u.
                           UserID r \<in> set (capped (svc_C s) (Following (os (SiteNeighbors 2 n)) (svc_G s) n))})))) \<and>
         (\<exists>r s'. PYMK os (NewService tri_graph e cfg) t1 t2 1 5 None = Some ([r], s') \<and>
                 UserID r = 4 \<and> CommonNeighbors r = 2)"
proof -
  have a: "\<exists>res s'. PYMK os s t_get t_set u k0 exclude = Some (res, s') \<and>
               (\<forall>r \<in> set res.
                  CommonNeighbors r =
                    int (card {n \<in> following_set (svc_G s) u.
                           UserID r \<in> set (capped (svc_C s) (Following (os (SiteNeighbors 1 n)) (svc_G s) n))})
                    + int (card {n \<in> followers_set (svc_G s) u.
                           UserID r \<in> set (capped (svc_C s) (Following (os (SiteNeighbors 2 n)) (svc_G s) n))}))"
    if miss: "fst (lru_Get (svc_cache s) t_get (cache_key s u k0)) = None"
  proof -
    let ?k = "if k0 \<le> 0 then 20 else k0"
    have k1: "1 \<le> ?k" by simp
    obtain res where c: "PYMK_compute os s u ?k exclude = Some res"
      and p: "PYMK os s t_get t_set u k0 exclude
             = Some (res, s\<lparr> svc_cache := lru_Set (snd (lru_Get (svc_cache s) t_get (cache_key s u k0)))
                                              t_set (cache_key s u k0) res \<rparr>)"
      using PYMK_total_miss[OF miss] by blast
    have "CommonNeighbors r =
                    int (card {n \<in> following_set (svc_G s) u.
                           UserID r \<in> set (capped (svc_C s) (Following (os (SiteNeighbors 1 n)) (svc_G s) n))})
                    + int (card {n \<in> followers_set (svc_G s) u.
                           UserID r \<in> set (capped (svc_C s) (Following (os (SiteNeighbors 2 n)) (svc_G s) n))})"
      if r: "r \<in> set res" for r
    proof -
      obtain x cs where x: "r = toSuggestion (weigh (svc_C s) (candidates os s u (gather os s u exclude)) x)"
        "gather os s u exclude (UserID r) = Some cs" "sc_common x = cs_common cs"
        using computed_suggestion[OF assms k1 c r] by blast
      have cn: "CommonNeighbors r = cs_common cs"
        by (simp add: x(1) x(3)[symmetric] toSuggestion_def weigh_fields)
      have "cs_common cs =
              int (length (via os 1 (svc_G s) (svc_C s) (UserID r) (os (SiteRange 1) (following_set (svc_G s) u))
                           @ via os 2 (svc_G s) (svc_C s) (UserID r) (os (SiteRange 2) (followers_set (svc_G s) u))))"
        using x(2) unfolding gather_get[OF assms] Let_def by (auto split: if_splits)
      then show ?thesis
        by (simp add: cn via_card[OF assms iters_okD[OF assms]])
    qed
    then show ?thesis using p by blast
  qed
  show ?thesis
    using a tri_scenario[OF assms, of e cfg t1 t2] by blast
qed

lemma iters_ok_skew_orders: "iters_ok skew_orders"
  by (simp add: iters_ok_def iter_ok_def skew_orders_def key_order_def)

lemma following_set_skew:
  "following_set skew_graph 1 = {2}" "following_set skew_graph 2 = {1, 4, 5}"
  "followers_set skew_graph 1 = {2}"
  by (auto simp add: skew_graph_def adj_simps following_set_new followers_set_new)

lemma capped_skew:
  "capped skew_cfg (Following (skew_orders (SiteNeighbors p 2)) skew_graph 2)
     = (if p = 2 then [5] else [1])"
  by (simp add: Following_def following_set_skew skew_orders_def key_order_def capped_def
        skew_cfg_def)

lemma gather_skew:
  "\<exists>w. \<forall>c. gather skew_orders skew_svc 1 None c
           = (if c = 5 then Some \<lparr> cs_common = 1, cs_aa = w \<rparr> else None)"
proof -
  note ok = iters_ok_skew_orders
  have r: "skew_orders t {2} = [2]" for t
    by (rule iter_ok_single[OF iters_okD[OF ok]])
  have v1: "via skew_orders 1 skew_graph skew_cfg c [2] = (if c = 1 then [2] else [])" for c
    by (simp add: via_def capped_skew)
  have v2: "via skew_orders 2 skew_graph skew_cfg c [2] = (if c = 5 then [2] else [])" for c
    by (simp add: via_def capped_skew)
  let ?w = "sum_list (map (\<lambda>n. aaWeight (DegreeOut skew_graph n + DegreeIn skew_graph n)) [2])"
  have "gather skew_orders skew_svc 1 None c
           = (if c = 5 then Some \<lparr> cs_common = 1, cs_aa = ?w \<rparr> else None)" for c
    unfolding gather_get[OF ok] Let_def skew_svc_def svc_fields following_set_skew r v1 v2
    by (simp add: eligible_def excluded_def)
  then show ?thesis by blast
qed

lemma skew_scenario:
  "\<exists>r s'. PYMK skew_orders skew_svc 0 0 1 5 None = Some ([r], s') \<and> UserID r = 5"
proof -
  obtain w where g: "\<And>c. gather skew_orders skew_svc 1 None c
           = (if c = 5 then Some \<lparr> cs_common = 1, cs_aa = w \<rparr> else None)"
    using gather_skew by blast
  have m: "fst (lru_Get (svc_cache skew_svc) 0 (cache_key skew_svc 1 5)) = None"
    unfolding skew_svc_def by (rule fresh_service_miss)
  show ?thesis
    using PYMK_single[OF iters_ok_skew_orders m g, of 0] by blast
qed

theorem common_neighbors_count_witness:
  "iters_ok key_orders \<and>
   fst (lru_Get (svc_cache tri_svc) 0 (cache_key tri_svc 1 5)) = None \<and>
   (\<exists>res s'. PYMK key_orders tri_svc 0 0 1 5 None = Some (res, s') \<and>
       (\<forall>r \<in> set res.
          CommonNeighbors r =
            int (card {n \<in> following_set (svc_G tri_svc) 1.
                   UserID r \<in> set (capped (svc_C tri_svc) (Following (key_orders (SiteNeighbors 1 n)) (svc_G tri_svc) n))})
            + int (card {n \<in> followers_set (svc_G tri_svc) 1.
                   UserID r \<in> set (capped (svc_C tri_svc) (Following (key_orders (SiteNeighbors 2 n)) (svc_G tri_svc) n))}))) \<and>
   (\<exists>r s'. PYMK key_orders tri_svc 0 0 1 5 None = Some ([r], s') \<and>
           UserID r = 4 \<and> CommonNeighbors r = 2) \<and>
   iters_ok skew_orders \<and>
   fst (lru_Get (svc_cache skew_svc) 0 (cache_key skew_svc 1 5)) = None \<and>
   following_set skew_graph 1 = {2} \<and> followers_set skew_graph 1 = {2} \<and>
   capped skew_cfg (Following (skew_orders (SiteNeighbors 1 2)) skew_graph 2) = [1] \<and>
   capped skew_cfg (Following (skew_orders (SiteNeighbors 2 2)) skew_graph 2) = [5] \<and>
   (\<exists>r s'. PYMK skew_orders skew_svc 0 0 1 5 None = Some ([r], s') \<and>
           UserID r = 5 \<and> CommonNeighbors r = 1)"
proof -
  have m: "fst (lru_Get (svc_cache tri_svc) 0 (cache_key tri_svc 1 5)) = None"
    unfolding tri_svc_def by (rule fresh_service_miss)
  have m2: "fst (lru_Get (svc_cache skew_svc) 0 (cache_key skew_svc 1 5)) = None"
    unfolding skew_svc_def by (rule fresh_service_miss)
  have 1: "iters_ok key_orders \<and>
   fst (lru_Get (svc_cache tri_svc) 0 (cache_key tri_svc 1 5)) = None \<and>
   (\<exists>res s'. PYMK key_orders tri_svc 0 0 1 5 None = Some (res, s') \<and>
       (\<forall>r \<in> set res.
          CommonNeighbors r =
            int (card {n \<in> following_set (svc_G tri_svc) 1.
                   UserID r \<in> set (capped (svc_C tri_svc) (Following (key_orders (SiteNeighbors 1 n)) (svc_G tri_svc) n))})
            + int (card {n \<in> followers_set (svc_G tri_svc) 1.
                   UserID r \<in> set (capped (svc_C tri_svc) (Following (key_orders (SiteNeighbors 2 n)) (svc_G tri_svc) n))}))) \<and>
   (\<exists>r s'. PYMK key_orders tri_svc 0 0 1 5 None = Some ([r], s') \<and>
           UserID r = 4 \<and> CommonNeighbors r = 2)"
    using common_neighbors_count[OF iters_ok_key_orders, of tri_svc 0 1 5 0 None None main_cfg 0 0]
      m iters_ok_key_orders
    unfolding tri_svc_def[symmetric] by blast
  obtain res s' where b: "PYMK skew_orders skew_svc 0 0 1 5 None = Some (res, s')"
    "\<forall>r \<in> set res.
          CommonNeighbors r =
            int (card {n \<in> following_set (svc_G skew_svc) 1.
                   UserID r \<in> set (capped (svc_C skew_svc) (Following (skew_orders (SiteNeighbors 1 n)) (svc_G skew_svc) n))})
            + int (card {n \<in> followers_set (svc_G skew_svc) 1.
                   UserID r \<in> set (capped (svc_C skew_svc) (Following (skew_orders (SiteNeighbors 2 n)) (svc_G skew_svc) n))})"
    using common_neighbors_count[OF iters_ok_skew_orders, of skew_svc 0 1 5 0 None None main_cfg 0 0]
      m2 by blast
  obtain r s'' where t: "PYMK skew_orders skew_svc 0 0 1 5 None = Some ([r], s'')" "UserID r = 5"
    using skew_scenario by blast
  have f: "svc_G skew_svc = skew_graph" "svc_C skew_svc = skew_cfg"
    by (simp_all add: skew_svc_def svc_fields)
  have e1: "{n \<in> {2 :: uid}. (5 :: uid) \<in> set (capped skew_cfg (Following (skew_orders (SiteNeighbors 1 n)) skew_graph n))} = {}"
    by (auto simp add: capped_skew)
  have e2: "{n \<in> {2 :: uid}. (5 :: uid) \<in> set (capped skew_cfg (Following (skew_orders (SiteNeighbors 2 n)) skew_graph n))} = {2}"
    by (auto simp add: capped_skew)
  have "res = [r]" using b(1) t(1) by simp
  then have "r \<in> set res" by simp
  then have "CommonNeighbors r = 1"
    using b(2)[rule_format, of r] unfolding f following_set_skew t(2) e1 e2 by simp
  then have 2: "\<exists>r s'. PYMK skew_orders skew_svc 0 0 1 5 None = Some ([r], s') \<and>
           UserID r = 5 \<and> CommonNeighbors r = 1"
    using t by blast
  show ?thesis
    using 1 2 m2 iters_ok_skew_orders following_set_skew(1,3) capped_skew[of 1] capped_skew[of 2]
    by simp
qed

lemma gather_mutual:
  assumes ok: "iters_ok os"
  shows "\<exists>w. \<forall>c. gather os mutual_svc 1 None c
           = (if c = 4 then Some \<lparr> cs_common = 2, cs_aa = w \<rparr> else None)"
proof -
  let ?g = "mutual_graph"
  have l2: "length (os t {1, 4 :: uid}) = 2" for t
    by (simp add: iter_ok_length[OF iters_okD[OF ok]])
  have nb: "capped main_cfg (Following (os t) ?g 2) = os t {1, 4}" for t
    unfolding Following_def following_set_mutual
    by (rule capped_short) (simp add: l2 main_cfg_def)
  have v: "via os p ?g main_cfg c (os t {2}) = (if c = 1 \<or> c = 4 then [2] else [])" for c p t
    by (simp add: via_def iter_ok_single[OF iters_okD[OF ok]] nb iter_ok_set[OF iters_okD[OF ok]])
  let ?w = "sum_list (map (\<lambda>n. aaWeight (DegreeOut ?g n + DegreeIn ?g n)) [2, 2])"
  have "gather os mutual_svc 1 None c
           = (if c = 4 then Some \<lparr> cs_common = 2, cs_aa = ?w \<rparr> else None)" for c
    unfolding gather_get[OF ok] Let_def mutual_svc_def svc_fields following_set_mutual
    by (simp add: v eligible_def excluded_def)
  then show ?thesis by blast
qed

text \<open>
  Claim C9 as stated counts distinct first-hop neighbours. In \<open>mutual_graph\<close> user 1 has
  the single first-hop neighbour 2, and \<open>PYMK(1, 5, nil)\<close> returns user 4 with
  \<open>common_neighbors\<close> 2.
\<close>

theorem common_neighbors_count_counterexample:
  "following_set mutual_graph 1 \<union> followers_set mutual_graph 1 = {2} \<and>
   map_option (map UserID \<circ> fst) (PYMK key_orders mutual_svc 0 0 1 5 None) = Some [4] \<and>
   map_option (map CommonNeighbors \<circ> fst) (PYMK key_orders mutual_svc 0 0 1 5 None) = Some [2]"
proof -
  obtain w where g: "\<And>c. gather key_orders mutual_svc 1 None c
           = (if c = 4 then Some \<lparr> cs_common = 2, cs_aa = w \<rparr> else None)"
    using gather_mutual[OF iters_ok_key_orders] by blast
  have m: "fst (lru_Get (svc_cache mutual_svc) 0 (cache_key mutual_svc 1 5)) = None"
    unfolding mutual_svc_def by (rule fresh_service_miss)
  obtain r where "PYMK key_orders mutual_svc 0 0 1 5 None
               = Some ([r], mutual_svc\<lparr> svc_cache :=
                    lru_Set (snd (lru_Get (svc_cache mutual_svc) 0 (cache_key mutual_svc 1 5)))
                      0 (cache_key mutual_svc 1 5) [r] \<rparr>)"
    "UserID r = 4" "CommonNeighbors r = cs_common \<lparr> cs_common = 2, cs_aa = w \<rparr>"
    using PYMK_single[OF iters_ok_key_orders m g, of 0] by blast
  then show ?thesis
    by (simp add: following_set_mutual)
qed

lemma computed_exclusions:
  assumes ok: "iters_ok os"
    and miss: "fst (lru_Get (svc_cache s) t_get (cache_key s u k0)) = None"
  shows "\<exists>res s'. PYMK os s t_get t_set u k0 exclude = Some (res, s') \<and>
           UserID ` set res \<inter>
             ({u} \<union> following_set (svc_G s) u \<union> followers_set (svc_G s) u
                \<union> the_excluded exclude) = {}"
proof -
  let ?k = "if k0 \<le> 0 then 20 else k0"
  have k1: "1 \<le> ?k" by simp
  obtain res where c: "PYMK_compute os s u ?k exclude = Some res"
    and p: "PYMK os s t_get t_set u k0 exclude
             = Some (res, s\<lparr> svc_cache := lru_Set (snd (lru_Get (svc_cache s) t_get (cache_key s u k0)))
                                              t_set (cache_key s u k0) res \<rparr>)"
    using PYMK_total_miss[OF miss] by blast
  have "UserID r \<notin> {u} \<union> following_set (svc_G s) u \<union> followers_set (svc_G s) u
                \<union> the_excluded exclude" if r: "r \<in> set res" for r
  proof -
    obtain cs where "gather os s u exclude (UserID r) = Some cs"
      using computed_suggestion[OF ok k1 c r] by blast
    then have "eligible u (following_set (svc_G s) u \<union> followers_set (svc_G s) u) exclude (UserID r)"
      unfolding gather_get[OF ok] Let_def by (auto split: if_splits)
    then show ?thesis
      by (auto simp add: eligible_def excluded_def the_excluded_def split: option.splits)
  qed
  then show ?thesis using p by blast
qed

lemma Set_fresh:
  assumes "1 \<le> capacity c" and "ll c = []" and "table c = Map.empty"
  shows "lru_Set c t0 key v
           = c\<lparr> ll := [\<lparr> ce_key = key, ce_value = v, ce_expiresAt = t0 + ttl c \<rparr>],
                table := [key \<mapsto> \<lparr> ce_key = key, ce_value = v, ce_expiresAt = t0 + ttl c \<rparr>] \<rparr>"
  using assms by (simp add: lru_Set_eq Let_def)

lemma Get_after_Set_fresh:
  assumes "1 \<le> capacity c" and "ll c = []" and "table c = Map.empty"
    and "now \<le> t0 + ttl c"
  shows "fst (lru_Get (lru_Set c t0 key v) now key) = Some v"
  using assms by (simp add: Set_fresh lru_Get_eq)

lemma PYMK_hit:
  assumes "fst (lru_Get (svc_cache s) t_get (cache_key s u k0)) = Some v"
  shows "PYMK os s t_get t_set u k0 exclude
           = Some (v, s\<lparr> svc_cache := snd (lru_Get (svc_cache s) t_get (cache_key s u k0)) \<rparr>)"
  using assms
  by (cases "lru_Get (svc_cache s) t_get (cache_key s u k0)") (simp add: PYMK_eq Let_def)

lemma cache_key_cache_upd: "cache_key (s\<lparr> svc_cache := c \<rparr>) u k0 = cache_key s u k0"
  by (simp add: cache_key_def)

text \<open>
  Claim C2 (exclusions) at a cached result. On the triangle service, \<open>PYMK(1, 5, nil)\<close>
  returns user 4 and caches the list under \<open>(1, 5, epoch)\<close>; the next call
  \<open>PYMK(1, 5, {4})\<close>, one time unit later, has the same key, hits the cache and returns
  user 4 although it is excluded. (On a cache miss the exclusions hold:
  \<open>computed_exclusions\<close>.)
\<close>

theorem exclusion_lost_on_cache_hit:
  "map_option (map UserID \<circ> fst) (PYMK key_orders tri_svc 0 0 1 5 None) = Some [4] \<and>
   map_option (map UserID \<circ> fst)
     (PYMK key_orders (snd (the (PYMK key_orders tri_svc 0 0 1 5 None))) 1 1 1 5 (Some {4}))
     = Some [4]"
proof -
  let ?key = "cache_key tri_svc 1 5"
  obtain w where g: "\<And>c. gather key_orders tri_svc 1 None c
           = (if c = 4 then Some \<lparr> cs_common = 2, cs_aa = w \<rparr> else None)"
    using gather_tri[OF iters_ok_key_orders, of None main_cfg] unfolding tri_svc_def by blast
  have m: "fst (lru_Get (svc_cache tri_svc) 0 ?key) = None"
    unfolding tri_svc_def by (rule fresh_service_miss)
  obtain r where p1: "PYMK key_orders tri_svc 0 0 1 5 None
               = Some ([r], tri_svc\<lparr> svc_cache :=
                    lru_Set (snd (lru_Get (svc_cache tri_svc) 0 ?key)) 0 ?key [r] \<rparr>)"
    and r: "UserID r = 4"
    using PYMK_single[OF iters_ok_key_orders m g, of 0] by blast
  let ?s1 = "tri_svc\<lparr> svc_cache := lru_Set (snd (lru_Get (svc_cache tri_svc) 0 ?key)) 0 ?key [r] \<rparr>"
  have c1: "svc_cache ?s1 = lru_Set (svc_cache tri_svc) 0 ?key [r]"
    by (simp add: tri_svc_def fresh_cache_miss svc_cache_new)
  have hit: "fst (lru_Get (svc_cache ?s1) 1 (cache_key ?s1 1 5)) = Some [r]"
    unfolding c1 cache_key_cache_upd
    by (rule Get_after_Set_fresh) (simp_all add: tri_svc_def svc_cache_new main_cfg_def)
  have p2: "PYMK key_orders ?s1 1 1 1 5 (Some {4})
              = Some ([r], ?s1\<lparr> svc_cache := snd (lru_Get (svc_cache ?s1) 1 (cache_key ?s1 1 5)) \<rparr>)"
    by (rule PYMK_hit[OF hit])
  show ?thesis
    unfolding p1 using p2 r by simp
qed

lemma Service_PYMK_total:
  "\<exists>res s'.
     Service_PYMK os s t_get t_set u k0 ex m
       = Some ((res, s'),
               (if capacity (svc_cache s) = 0 then m
                else if fst (lru_Get (svc_cache s) t_get (cache_key s u k0)) \<noteq> None
                then call (onHit (svc_cache s)) m
                else if table (snd (lru_Get (svc_cache s) t_get (cache_key s u k0)))
                          (cache_key s u k0) = None \<and>
                        capacity (svc_cache s)
                          < int (length (ll (snd (lru_Get (svc_cache s) t_get (cache_key s u k0))))) + 1
                then call (onEvict (svc_cache s)) (call (onMiss (svc_cache s)) m)
                else call (onMiss (svc_cache s)) m)) \<and>
     PYMK os s t_get t_set u k0 ex = Some (res, s')"
proof (cases "fst (lru_Get (svc_cache s) t_get (cache_key s u k0))")
  case None
  obtain c1 where g: "lru_Get (svc_cache s) t_get (cache_key s u k0) = (None, c1)"
    using None by (cases "lru_Get (svc_cache s) t_get (cache_key s u k0)") auto
  have cb: "capacity c1 = capacity (svc_cache s)" "onEvict c1 = onEvict (svc_cache s)"
    using capacity_Get[of "svc_cache s" t_get "cache_key s u k0"]
      callbacks_Get(3)[of "svc_cache s" t_get "cache_key s u k0"] by (simp_all add: g)
  obtain res where c: "PYMK_compute os s u (if k0 \<le> 0 then 20 else k0) ex = Some res"
    and p: "PYMK os s t_get t_set u k0 ex
             = Some (res, s\<lparr> svc_cache := lru_Set (snd (lru_Get (svc_cache s) t_get (cache_key s u k0)))
                                              t_set (cache_key s u k0) res \<rparr>)"
    using PYMK_total_miss[OF None] by blast
  show ?thesis
    unfolding p Service_PYMK_eq Let_def g
    by (simp add: c ck_k_cache_key lruCache_Get_snd lruCache_Set_snd g cb)
next
  case (Some v)
  then have c0: "capacity (svc_cache s) \<noteq> 0" by (auto simp add: lru_Get_eq split: if_splits)
  obtain c1 where g: "lru_Get (svc_cache s) t_get (cache_key s u k0) = (Some v, c1)"
    using Some by (cases "lru_Get (svc_cache s) t_get (cache_key s u k0)") auto
  show ?thesis
    unfolding PYMK_hit[OF Some] Service_PYMK_eq Let_def g
    by (simp add: lruCache_Get_snd g c0)
qed


lemma tri_cache:
  "capacity (svc_cache tri_svc) = 100000" "ll (svc_cache tri_svc) = []"
  "table (svc_cache tri_svc) = Map.empty"
  "onHit (svc_cache tri_svc) = Some (PYMKCache_Inc ''hit'')"
  "onMiss (svc_cache tri_svc) = Some (PYMKCache_Inc ''miss'')"
  "onEvict (svc_cache tri_svc) = Some (PYMKCache_Inc ''evict'')"
  "lru_Get (svc_cache tri_svc) t key = (None, svc_cache tri_svc)"
  by (simp_all add: tri_svc_def svc_cache_new main_cfg_def fresh_cache_miss)

text \<open>
  Claim C10 (frame of \<open>PYMK\<close>), with the counters. Every call of \<open>PYMK\<close> returns, and the
  service it leaves has the graph, the embedding store and the configuration of the service
  before; so \<open>Following\<close>, \<open>Followers\<close>, \<open>HasEdge\<close>, \<open>DegreeOut\<close>, \<open>DegreeIn\<close>, \<open>UserEpoch\<close>
  and the embedding lookup give, for every user, what they gave before the call. Of the
  service only the cache field can differ, and there the callbacks stay as they are. The
  call also writes to the global counter \<open>PYMKCache\<close>, through the callbacks of the
  cache: with the callbacks \<open>NewService\<close> installs, the count of \<open>hit\<close> grows by one on a
  cache hit, the count of \<open>miss\<close> by one on a miss of a cache of capacity other than 0, the
  count of \<open>evict\<close> by one when the \<open>Set\<close> after such a miss pushes the list over the
  capacity, and every other label keeps its count.
\<close>

theorem PYMK_frame:
  "\<exists>res s' m'.
      Service_PYMK os s t_get t_set u k0 exclude m = Some ((res, s'), m') \<and>
      PYMK os s t_get t_set u k0 exclude = Some (res, s') \<and>
      svc_G s' = svc_G s \<and> svc_E s' = svc_E s \<and> svc_C s' = svc_C s \<and>
      (\<forall>w v. Following ord (svc_G s') w = Following ord (svc_G s) w \<and>
             Followers ord (svc_G s') w = Followers ord (svc_G s) w \<and>
             HasEdge (svc_G s') w v = HasEdge (svc_G s) w v \<and>
             DegreeOut (svc_G s') w = DegreeOut (svc_G s) w \<and>
             DegreeIn (svc_G s') w = DegreeIn (svc_G s) w \<and>
             UserEpoch (svc_G s') w = UserEpoch (svc_G s) w \<and>
             map_option (\<lambda>e. embeds_Get e w) (svc_E s') = map_option (\<lambda>e. embeds_Get e w) (svc_E s)) \<and>
      onHit (svc_cache s') = onHit (svc_cache s) \<and>
      onMiss (svc_cache s') = onMiss (svc_cache s) \<and>
      onEvict (svc_cache s') = onEvict (svc_cache s) \<and>
      (onHit (svc_cache s) = Some (PYMKCache_Inc ''hit'') \<and>
       onMiss (svc_cache s) = Some (PYMKCache_Inc ''miss'') \<and>
       onEvict (svc_cache s) = Some (PYMKCache_Inc ''evict'') \<longrightarrow>
         (\<forall>l. l \<notin> {''hit'', ''miss'', ''evict''} \<longrightarrow> PYMKCache m' l = PYMKCache m l) \<and>
         PYMKCache m' ''hit'' = PYMKCache m ''hit''
           + (if fst (lru_Get (svc_cache s) t_get (cache_key s u k0)) \<noteq> None then 1 else 0) \<and>
         PYMKCache m' ''miss'' = PYMKCache m ''miss''
           + (if capacity (svc_cache s) \<noteq> 0 \<and>
                 fst (lru_Get (svc_cache s) t_get (cache_key s u k0)) = None then 1 else 0) \<and>
         PYMKCache m' ''evict'' = PYMKCache m ''evict''
           + (if capacity (svc_cache s) \<noteq> 0 \<and>
                 fst (lru_Get (svc_cache s) t_get (cache_key s u k0)) = None \<and>
                 table (snd (lru_Get (svc_cache s) t_get (cache_key s u k0))) (cache_key s u k0) = None \<and>
                 capacity (svc_cache s)
                   < int (length (ll (snd (lru_Get (svc_cache s) t_get (cache_key s u k0))))) + 1
              then 1 else 0))"
proof -
  let ?c = "svc_cache s"
  let ?key = "cache_key s u k0"
  let ?m' = "if capacity ?c = 0 then m
             else if fst (lru_Get ?c t_get ?key) \<noteq> None then call (onHit ?c) m
             else if table (snd (lru_Get ?c t_get ?key)) ?key = None \<and>
                     capacity ?c < int (length (ll (snd (lru_Get ?c t_get ?key)))) + 1
             then call (onEvict ?c) (call (onMiss ?c) m)
             else call (onMiss ?c) m"
  obtain res s' where r: "Service_PYMK os s t_get t_set u k0 exclude m = Some ((res, s'), ?m')"
    and p: "PYMK os s t_get t_set u k0 exclude = Some (res, s')"
    using Service_PYMK_total[of os s t_get t_set u k0 exclude m] by blast
  have f: "svc_G s' = svc_G s \<and> svc_E s' = svc_E s \<and> svc_C s' = svc_C s \<and>
           onHit (svc_cache s') = onHit ?c \<and> onMiss (svc_cache s') = onMiss ?c \<and>
           onEvict (svc_cache s') = onEvict ?c"
  proof (cases "fst (lru_Get ?c t_get ?key)")
    case None
    then show ?thesis
      using p PYMK_total_miss[OF None, of os exclude t_set]
      by (auto simp add: callbacks_Get callbacks_Set)
  next
    case (Some v)
    then show ?thesis using p by (auto simp add: PYMK_hit[OF Some] callbacks_Get)
  qed
  have z: "capacity ?c = 0 \<Longrightarrow> fst (lru_Get ?c t_get ?key) = None"
    by (simp add: lru_Get_eq)
  have cnt: "(\<forall>l. l \<notin> {''hit'', ''miss'', ''evict''} \<longrightarrow> PYMKCache ?m' l = PYMKCache m l) \<and>
         PYMKCache ?m' ''hit'' = PYMKCache m ''hit''
           + (if fst (lru_Get ?c t_get ?key) \<noteq> None then 1 else 0) \<and>
         PYMKCache ?m' ''miss'' = PYMKCache m ''miss''
           + (if capacity ?c \<noteq> 0 \<and> fst (lru_Get ?c t_get ?key) = None then 1 else 0) \<and>
         PYMKCache ?m' ''evict'' = PYMKCache m ''evict''
           + (if capacity ?c \<noteq> 0 \<and> fst (lru_Get ?c t_get ?key) = None \<and>
                 table (snd (lru_Get ?c t_get ?key)) ?key = None \<and>
                 capacity ?c < int (length (ll (snd (lru_Get ?c t_get ?key)))) + 1
              then 1 else 0)"
    if h: "onHit ?c = Some (PYMKCache_Inc ''hit'') \<and>
           onMiss ?c = Some (PYMKCache_Inc ''miss'') \<and>
           onEvict ?c = Some (PYMKCache_Inc ''evict'')"
    using z by (simp add: h call_def PYMKCache_Inc_def)
  show ?thesis
    using r p f cnt by simp
qed

text \<open>
  Claim C10 as stated has the cache as the only state \<open>PYMK\<close> mutates. On the fresh
  triangle service, \<open>PYMK(1, 5, nil)\<close> started with every count at 0 leaves the count of
  \<open>miss\<close> at 1.
\<close>

theorem PYMK_frame_counterexample:
  "map_option (PYMKCache \<circ> snd) (Service_PYMK key_orders tri_svc 0 0 1 5 None no_events)
     = Some ((PYMKCache no_events)(''miss'' := 1)) \<and>
   PYMKCache no_events ''miss'' = 0"
proof -
  obtain res s' where
    "Service_PYMK key_orders tri_svc 0 0 1 5 None no_events
       = Some ((res, s'), PYMKCache_Inc ''miss'' no_events)"
    using Service_PYMK_total[of key_orders tri_svc 0 0 1 5 None no_events]
    by (auto simp add: tri_cache call_def)
  then show ?thesis
    by (simp add: PYMKCache_Inc_def no_events_def)
qed

lemma fold_max_ge:
  "m0 \<le> fold (\<lambda>sc m. if f sc > m then f sc else m) out (m0 :: 'b :: linorder) \<and>
   (\<forall>x\<in>set out. f x \<le> fold (\<lambda>sc m. if f sc > m then f sc else m) out m0)"
proof (induction out arbitrary: m0)
  case Nil
  then show ?case by simp
next
  case (Cons a out)
  let ?m1 = "if f a > m0 then f a else m0"
  have ih: "?m1 \<le> fold (\<lambda>sc m. if f sc > m then f sc else m) out ?m1"
    "\<forall>x\<in>set out. f x \<le> fold (\<lambda>sc m. if f sc > m then f sc else m) out ?m1"
    using Cons.IH[of ?m1] by blast+
  have "m0 \<le> ?m1" "f a \<le> ?m1" by auto
  then have "m0 \<le> fold (\<lambda>sc m. if f sc > m then f sc else m) out ?m1"
    "f a \<le> fold (\<lambda>sc m. if f sc > m then f sc else m) out ?m1"
    using ih(1) by (meson order_trans)+
  then show ?case using ih(2) by simp
qed

lemma maxOf_ge: "x \<in> set out \<Longrightarrow> f x \<le> maxOf f out"
  using fold_max_ge[of 0 f out] by (simp add: maxOf_def)

lemma maxOf_nonneg: "0 \<le> maxOf f out"
  using fold_max_ge[of 0 f out] by (simp add: maxOf_def)

lemma normalise_bounds:
  assumes "0 \<le> x" and "x \<le> mx"
  shows "0 \<le> normalise x mx \<and> normalise x mx \<le> 1"
  using assms by (simp add: normalise_def)

lemma gathered_nonneg:
  assumes ok: "iters_ok os" and g: "gather os s u ex c = Some cs"
  shows "0 \<le> cs_common cs \<and> 0 \<le> cs_aa cs"
proof -
  let ?vs = "via os 1 (svc_G s) (svc_C s) c (os (SiteRange 1) (following_set (svc_G s) u))
               @ via os 2 (svc_G s) (svc_C s) c (os (SiteRange 2) (followers_set (svc_G s) u))"
  have "cs = \<lparr> cs_common = int (length ?vs),
               cs_aa = sum_list (map (\<lambda>n. aaWeight (DegreeOut (svc_G s) n + DegreeIn (svc_G s) n)) ?vs) \<rparr>"
    using g unfolding gather_get[OF ok] Let_def by (auto split: if_splits)
  moreover have "0 \<le> sum_list (map (\<lambda>n. aaWeight (DegreeOut (svc_G s) n + DegreeIn (svc_G s) n)) ?vs)"
    by (rule sum_list_nonneg) (auto simp add: aaWeight_nonneg)
  ultimately show ?thesis by simp
qed

lemma candidate_bounds:
  assumes ok: "iters_ok os" and x: "x \<in> set (candidates os s u (gather os s u ex))"
  shows "0 \<le> sc_common x \<and> 0 \<le> sc_jaccard x \<and> 0 \<le> sc_aa x \<and> 0 \<le> sc_cos x"
proof -
  obtain cs where cs: "gather os s u ex (sc_id x) = Some cs"
    "x = features os (svc_G s) (svc_E s)
                 (case svc_E s of None \<Rightarrow> None | Some e \<Rightarrow> embeds_Get e u)
                 (toStdSet (Following (os SiteFollowing) (svc_G s) u)) (sc_id x) cs"
    using candidates_mem[OF x] by blast
  have n: "0 \<le> cs_common cs" "0 \<le> cs_aa cs"
    using gathered_nonneg[OF ok cs(1)] by simp_all
  have "0 \<le> sc_common x" "0 \<le> sc_aa x" "0 \<le> sc_cos x" "0 \<le> sc_jaccard x"
    by (subst cs(2), simp add: features_fields n features_jaccard_nonneg[OF ok])+
  then show ?thesis by simp
qed

lemma normalised_bounds:
  assumes ok: "iters_ok os" and x: "x \<in> set (candidates os s u (gather os s u ex))"
  shows "0 \<le> nCommon (candidates os s u (gather os s u ex)) x \<and>
         nCommon (candidates os s u (gather os s u ex)) x \<le> 1 \<and>
         0 \<le> nJ (candidates os s u (gather os s u ex)) x \<and>
         nJ (candidates os s u (gather os s u ex)) x \<le> 1 \<and>
         0 \<le> nAA (candidates os s u (gather os s u ex)) x \<and>
         nAA (candidates os s u (gather os s u ex)) x \<le> 1 \<and>
         0 \<le> nCos (candidates os s u (gather os s u ex)) x \<and>
         nCos (candidates os s u (gather os s u ex)) x \<le> 1"
proof -
  let ?out = "candidates os s u (gather os s u ex)"
  have b: "0 \<le> sc_common x" "0 \<le> sc_jaccard x" "0 \<le> sc_aa x" "0 \<le> sc_cos x"
    using candidate_bounds[OF ok x] by simp_all
  have "sc_common x \<le> maxOf sc_common ?out" by (rule maxOf_ge[OF x])
  then have 1: "0 \<le> nCommon ?out x \<and> nCommon ?out x \<le> 1"
    unfolding nCommon_def using b(1) by (intro normalise_bounds) simp_all
  have 2: "0 \<le> nJ ?out x \<and> nJ ?out x \<le> 1"
    unfolding nJ_def using b(2) maxOf_ge[OF x, of sc_jaccard] by (intro normalise_bounds)
  have 3: "0 \<le> nAA ?out x \<and> nAA ?out x \<le> 1"
    unfolding nAA_def using b(3) maxOf_ge[OF x, of sc_aa] by (intro normalise_bounds)
  have 4: "0 \<le> nCos ?out x \<and> nCos ?out x \<le> 1"
    unfolding nCos_def using b(4) maxOf_ge[OF x, of sc_cos] by (intro normalise_bounds)
  show ?thesis using 1 2 3 4 by simp
qed

lemma weighted_bounds:
  fixes w n :: real
  assumes "0 \<le> w" and "0 \<le> n" and "n \<le> 1"
  shows "0 \<le> w * n" and "w * n \<le> w"
  using assms by (simp_all add: mult_left_le)

text \<open>
  Claim C7 (score and feature bounds). For non-negative weights, on a cache miss and for
  every choice of the iteration orders: the four normalised features of every candidate
  lie in \<open>[0, 1]\<close>;
  the score of every returned suggestion lies between 0 and the sum of the four weights;
  its \<open>cosine\<close> is not negative, and is 0 when the embedding of \<open>u\<close> or of the candidate
  is missing (or there is no embedding store); \<open>cosine\<close> itself is never negative and is
  0 on vectors of different lengths.
\<close>

theorem score_bounds:
  assumes ok: "iters_ok os"
    and w: "0 \<le> WCommon (svc_C s)" "0 \<le> WJaccard (svc_C s)" "0 \<le> WAA (svc_C s)"
      "0 \<le> WCosine (svc_C s)"
    and miss: "fst (lru_Get (svc_cache s) t_get (cache_key s u k0)) = None"
  shows "\<exists>res s'. PYMK os s t_get t_set u k0 exclude = Some (res, s') \<and>
           (\<forall>c \<in> set (candidates os s u (gather os s u exclude)).
              0 \<le> nCommon (candidates os s u (gather os s u exclude)) c \<and>
              nCommon (candidates os s u (gather os s u exclude)) c \<le> 1 \<and>
              0 \<le> nJ (candidates os s u (gather os s u exclude)) c \<and>
              nJ (candidates os s u (gather os s u exclude)) c \<le> 1 \<and>
              0 \<le> nAA (candidates os s u (gather os s u exclude)) c \<and>
              nAA (candidates os s u (gather os s u exclude)) c \<le> 1 \<and>
              0 \<le> nCos (candidates os s u (gather os s u exclude)) c \<and>
              nCos (candidates os s u (gather os s u exclude)) c \<le> 1) \<and>
           (\<forall>r \<in> set res.
              0 \<le> Score r \<and>
              Score r \<le> WCommon (svc_C s) + WJaccard (svc_C s) + WAA (svc_C s) + WCosine (svc_C s) \<and>
              0 \<le> Cosine r \<and>
              ((\<forall>e. svc_E s = Some e \<longrightarrow> embeds_Get e u = None \<or> embeds_Get e (UserID r) = None)
                 \<longrightarrow> Cosine r = 0)) \<and>
           (\<forall>a b. 0 \<le> cosine a b \<and> (length a \<noteq> length b \<longrightarrow> cosine a b = 0))"
proof -
  let ?k = "if k0 \<le> 0 then 20 else k0"
  let ?out = "candidates os s u (gather os s u exclude)"
  have k1: "1 \<le> ?k" by simp
  obtain res where c: "PYMK_compute os s u ?k exclude = Some res"
    and p: "PYMK os s t_get t_set u k0 exclude
             = Some (res, s\<lparr> svc_cache := lru_Set (snd (lru_Get (svc_cache s) t_get (cache_key s u k0)))
                                              t_set (cache_key s u k0) res \<rparr>)"
    using PYMK_total_miss[OF miss] by blast
  have A: "\<forall>c \<in> set ?out.
              0 \<le> nCommon ?out c \<and> nCommon ?out c \<le> 1 \<and> 0 \<le> nJ ?out c \<and> nJ ?out c \<le> 1 \<and>
              0 \<le> nAA ?out c \<and> nAA ?out c \<le> 1 \<and> 0 \<le> nCos ?out c \<and> nCos ?out c \<le> 1"
    using normalised_bounds[OF ok] by blast
  have B: "0 \<le> Score r \<and>
           Score r \<le> WCommon (svc_C s) + WJaccard (svc_C s) + WAA (svc_C s) + WCosine (svc_C s) \<and>
           0 \<le> Cosine r \<and>
           ((\<forall>e. svc_E s = Some e \<longrightarrow> embeds_Get e u = None \<or> embeds_Get e (UserID r) = None)
                 \<longrightarrow> Cosine r = 0)"
    if r: "r \<in> set res" for r
  proof -
    obtain x where x: "x \<in> set ?out" "r = toSuggestion (weigh (svc_C s) ?out x)"
      "sc_id x = UserID r"
      using computed_suggestion[OF ok k1 c r] by blast
    have n: "0 \<le> nCommon ?out x" "nCommon ?out x \<le> 1" "0 \<le> nJ ?out x" "nJ ?out x \<le> 1"
      "0 \<le> nAA ?out x" "nAA ?out x \<le> 1" "0 \<le> nCos ?out x" "nCos ?out x \<le> 1"
      using normalised_bounds[OF ok x(1)] by simp_all
    have sc: "Score r = WCommon (svc_C s) * nCommon ?out x + WJaccard (svc_C s) * nJ ?out x
                + WAA (svc_C s) * nAA ?out x + WCosine (svc_C s) * nCos ?out x"
      by (simp add: x(2) Score_toSuggestion weigh_fields)
    have t: "0 \<le> WCommon (svc_C s) * nCommon ?out x" "WCommon (svc_C s) * nCommon ?out x \<le> WCommon (svc_C s)"
      "0 \<le> WJaccard (svc_C s) * nJ ?out x" "WJaccard (svc_C s) * nJ ?out x \<le> WJaccard (svc_C s)"
      "0 \<le> WAA (svc_C s) * nAA ?out x" "WAA (svc_C s) * nAA ?out x \<le> WAA (svc_C s)"
      "0 \<le> WCosine (svc_C s) * nCos ?out x" "WCosine (svc_C s) * nCos ?out x \<le> WCosine (svc_C s)"
      using w n by (simp_all add: weighted_bounds)
    have s1: "0 \<le> Score r" unfolding sc using t by linarith
    have s2: "Score r \<le> WCommon (svc_C s) + WJaccard (svc_C s) + WAA (svc_C s) + WCosine (svc_C s)"
      unfolding sc using t by linarith
    have cr: "Cosine r = sc_cos x"
      by (simp add: x(2) toSuggestion_def weigh_fields)
    have s3: "0 \<le> Cosine r"
      using candidate_bounds[OF ok x(1)] by (simp add: cr)
    obtain cs where f: "x = features os (svc_G s) (svc_E s)
                 (case svc_E s of None \<Rightarrow> None | Some e \<Rightarrow> embeds_Get e u)
                 (toStdSet (Following (os SiteFollowing) (svc_G s) u)) (sc_id x) cs"
      using candidates_mem[OF x(1)] by blast
    have s4: "Cosine r = 0"
      if "\<forall>e. svc_E s = Some e \<longrightarrow> embeds_Get e u = None \<or> embeds_Get e (UserID r) = None"
    proof -
      have "(case svc_E s of None \<Rightarrow> None | Some e \<Rightarrow> embeds_Get e u) = None \<or> svc_E s = None \<or>
            (\<exists>e. svc_E s = Some e \<and> embeds_Get e (sc_id x) = None)"
        using that x(3) by (cases "svc_E s") auto
      then have "sc_cos (features os (svc_G s) (svc_E s)
                 (case svc_E s of None \<Rightarrow> None | Some e \<Rightarrow> embeds_Get e u)
                 (toStdSet (Following (os SiteFollowing) (svc_G s) u)) (sc_id x) cs) = 0"
        by (rule features_cos_missing)
      then show ?thesis using f cr by simp
    qed
    show ?thesis using s1 s2 s3 s4 by blast
  qed
  have C: "\<forall>a b. 0 \<le> cosine a b \<and> (length a \<noteq> length b \<longrightarrow> cosine a b = 0)"
    by (simp add: cosine_nonneg cosine_mismatch)
  show ?thesis using p A B C by blast
qed

lemma tri_miss: "fst (lru_Get (svc_cache tri_svc) t (cache_key tri_svc u k0)) = None"
  unfolding tri_svc_def by (rule fresh_service_miss)

lemma tri_result:
  "\<exists>r s'. PYMK key_orders tri_svc 0 0 1 5 None = Some ([r], s') \<and> UserID r = 4 \<and>
          CommonNeighbors r = 2"
  using tri_scenario[OF iters_ok_key_orders, of None main_cfg 0 0] unfolding tri_svc_def .

theorem score_bounds_witness:
  "iters_ok key_orders \<and>
   0 \<le> WCommon (svc_C tri_svc) \<and> 0 \<le> WJaccard (svc_C tri_svc) \<and>
   0 \<le> WAA (svc_C tri_svc) \<and> 0 \<le> WCosine (svc_C tri_svc) \<and>
   fst (lru_Get (svc_cache tri_svc) 0 (cache_key tri_svc 1 5)) = None \<and>
   (\<exists>r s'. PYMK key_orders tri_svc 0 0 1 5 None = Some ([r], s') \<and> UserID r = 4 \<and>
           0 \<le> Score r \<and> Score r \<le> 34 / 10 \<and> 0 \<le> Cosine r \<and> Cosine r = 0)"
proof -
  have w: "0 \<le> WCommon (svc_C tri_svc)" "0 \<le> WJaccard (svc_C tri_svc)"
    "0 \<le> WAA (svc_C tri_svc)" "0 \<le> WCosine (svc_C tri_svc)"
    by (simp_all add: tri_svc_def svc_fields main_cfg_def)
  have sum: "WCommon (svc_C tri_svc) + WJaccard (svc_C tri_svc) + WAA (svc_C tri_svc)
               + WCosine (svc_C tri_svc) = 34 / 10"
    by (simp add: tri_svc_def svc_fields main_cfg_def)
  have e: "svc_E tri_svc = None" by (simp add: tri_svc_def svc_fields)
  obtain res s' where b: "PYMK key_orders tri_svc 0 0 1 5 None = Some (res, s')"
    "\<forall>r \<in> set res.
              0 \<le> Score r \<and>
              Score r \<le> WCommon (svc_C tri_svc) + WJaccard (svc_C tri_svc) + WAA (svc_C tri_svc)
                          + WCosine (svc_C tri_svc) \<and>
              0 \<le> Cosine r \<and>
              ((\<forall>e. svc_E tri_svc = Some e \<longrightarrow>
                     embeds_Get e 1 = None \<or> embeds_Get e (UserID r) = None)
                 \<longrightarrow> Cosine r = 0)"
    using score_bounds[OF iters_ok_key_orders w tri_miss[of 0 1 5], where t_set=0 and exclude=None]
    by blast
  obtain r s'' where t: "PYMK key_orders tri_svc 0 0 1 5 None = Some ([r], s'')" "UserID r = 4"
    using tri_result by blast
  have "res = [r]" using b(1) t(1) by simp
  then have "0 \<le> Score r \<and> Score r \<le> 34 / 10 \<and> 0 \<le> Cosine r \<and> Cosine r = 0"
    using b(2) sum e by simp
  then show ?thesis
    using iters_ok_key_orders w tri_miss t by blast
qed

lemma following_set_fan:
  "following_set fan_graph 1 = {2, 3}" "following_set fan_graph 2 = {4, 5}"
  "following_set fan_graph 3 = {4}" "followers_set fan_graph 1 = {}"
  by (auto simp add: fan_graph_def adj_simps following_set_new followers_set_new)

lemma gather_fan:
  assumes ok: "iters_ok os"
  shows "\<exists>w4 w5. \<forall>c. gather os fan_svc 1 None c
           = (if c = 4 then Some \<lparr> cs_common = 2, cs_aa = w4 \<rparr>
              else if c = 5 then Some \<lparr> cs_common = 1, cs_aa = w5 \<rparr> else None)"
proof -
  let ?g = "fan_graph"
  have l2: "length (os t {4, 5 :: uid}) = 2" for t
    by (simp add: iter_ok_length[OF iters_okD[OF ok]])
  have "capped fan_cfg (Following (os t) ?g 2) = os t {4, 5}" for t
    unfolding Following_def following_set_fan
    by (rule capped_short) (simp add: l2 fan_cfg_def)
  then have nb2: "set (capped fan_cfg (Following (os t) ?g 2)) = {4, 5}" for t
    by (simp add: iter_ok_set[OF iters_okD[OF ok]])
  have nb3: "set (capped fan_cfg (Following (os t) ?g 3)) = {4}" for t
    by (simp add: Following_def following_set_fan iter_ok_single[OF iters_okD[OF ok]]
          capped_single)
  have s: "{n \<in> {2, 3}. c \<in> set (capped fan_cfg (Following (os (SiteNeighbors p n)) ?g n))}
             = (if c = 4 then {2, 3} else if c = 5 then {2} else {})" for c p
    using nb2 nb3 by auto
  have len: "length (via os p ?g fan_cfg c (os t {2, 3}))
               = (if c = 4 then 2 else if c = 5 then 1 else 0)" for c p t
    unfolding via_card[OF ok iters_okD[OF ok]] s by simp
  have ne: "via os p ?g fan_cfg c (os t {2, 3}) \<noteq> [] \<longleftrightarrow> c = 4 \<or> c = 5" for c p t
    using len[of p c t] by (auto split: if_splits)
  have v2: "via os p ?g fan_cfg c (os t {}) = []" for c p t
    by (simp add: via_def iter_ok_empty[OF iters_okD[OF ok]])
  have el: "eligible 1 {2, 3} None (4 :: uid)" "eligible 1 {2, 3} None (5 :: uid)"
    by (simp_all add: eligible_def excluded_def)
  let ?w = "\<lambda>c. sum_list (map (\<lambda>n. aaWeight (DegreeOut ?g n + DegreeIn ?g n))
                      (via os 1 ?g fan_cfg c (os (SiteRange 1) {2, 3})))"
  have "gather os fan_svc 1 None c
           = (if c = 4 then Some \<lparr> cs_common = 2, cs_aa = ?w 4 \<rparr>
              else if c = 5 then Some \<lparr> cs_common = 1, cs_aa = ?w 5 \<rparr> else None)" for c
    unfolding gather_get[OF ok] Let_def fan_svc_def svc_fields following_set_fan
    using el by (simp add: v2 len ne)
  then show ?thesis by blast
qed

lemma scoreAll_fan:
  "\<exists>x4 x5. scoreAll key_orders fan_svc 1 (gather key_orders fan_svc 1 None) = [x4, x5] \<and>
      sc_id x4 = 4 \<and> sc_score x4 = 1 \<and> sc_id x5 = 5 \<and> sc_score x5 = 1 / 2"
proof -
  let ?st = "gather key_orders fan_svc 1 None"
  obtain w4 w5 where g: "\<And>c. ?st c
           = (if c = 4 then Some \<lparr> cs_common = 2, cs_aa = w4 \<rparr>
              else if c = 5 then Some \<lparr> cs_common = 1, cs_aa = w5 \<rparr> else None)"
    using gather_fan[OF iters_ok_key_orders] by blast
  have dm: "dom ?st = {4, 5}" by (auto simp add: g split: if_splits)
  have ko: "key_orders SiteStats {4, 5 :: uid} = [4, 5]"
    by (simp add: key_orders_def key_order_def)
  let ?f = "features key_orders (svc_G fan_svc) (svc_E fan_svc)
              (case svc_E fan_svc of None \<Rightarrow> None | Some e \<Rightarrow> embeds_Get e 1)
              (toStdSet (Following (key_orders SiteFollowing) (svc_G fan_svc) 1))"
  let ?f4 = "?f 4 \<lparr> cs_common = 2, cs_aa = w4 \<rparr>"
  let ?f5 = "?f 5 \<lparr> cs_common = 1, cs_aa = w5 \<rparr>"
  have c: "candidates key_orders fan_svc 1 ?st = [?f4, ?f5]"
    by (simp add: candidates_def Let_def dm ko List.map_filter_def g)
  have mx: "maxOf sc_common [?f4, ?f5] = 2"
    by (simp add: maxOf_def features_fields)
  have w: "WCommon (svc_C fan_svc) = 1" "WJaccard (svc_C fan_svc) = 0"
    "WAA (svc_C fan_svc) = 0" "WCosine (svc_C fan_svc) = 0"
    by (simp_all add: fan_svc_def svc_fields fan_cfg_def)
  let ?x4 = "weigh (svc_C fan_svc) [?f4, ?f5] ?f4"
  let ?x5 = "weigh (svc_C fan_svc) [?f4, ?f5] ?f5"
  have sa: "scoreAll key_orders fan_svc 1 ?st = [?x4, ?x5]"
    by (simp add: scoreAll_def Let_def c)
  have "sc_id ?x4 = 4" "sc_id ?x5 = 5"
    by (simp_all add: weigh_fields features_fields)
  moreover have "sc_score ?x4 = 1" "sc_score ?x5 = 1 / 2"
    by (simp_all add: weigh_fields w nCommon_def mx normalise_def features_fields)
  ultimately show ?thesis using sa by blast
qed

lemma mset_one_of_two:
  assumes "mset its + R = {#a, b#}" and "length its = 1"
  shows "(its = [a] \<and> R = {#b#}) \<or> (its = [b] \<and> R = {#a#})"
proof -
  obtain y where y: "its = [y]"
    using assms(2) by (cases its) auto
  then have "add_mset y R = add_mset a {#b#}" using assms(1) by simp
  then show ?thesis
    unfolding y by (auto simp add: add_eq_conv_ex)
qed

lemma mset_two_of_two:
  assumes "mset its = {#a, b#}"
  shows "its = [a, b] \<or> its = [b, a]"
proof -
  have "size (mset its) = size {#a, b#}" using assms by simp
  then have "length its = 2" by simp
  then obtain x y where y: "its = [x, y]"
    by (cases its; cases "tl its") auto
  then have "add_mset x {#y#} = add_mset a {#b#}" using assms by simp
  then show ?thesis
    unfolding y by (auto simp add: add_eq_conv_ex)
qed

lemma fan_miss: "fst (lru_Get (svc_cache fan_svc) t (cache_key fan_svc u k0)) = None"
  unfolding fan_svc_def by (rule fresh_service_miss)

theorem top_k_selection_witness:
  "fst (lru_Get (svc_cache fan_svc) 0 (cache_key fan_svc 1 1)) = None \<and>
   fst (lru_Get (svc_cache fan_svc) 0 (cache_key fan_svc 1 2)) = None \<and>
   map sc_id (scoreAll key_orders fan_svc 1 (gather key_orders fan_svc 1 None)) = [4, 5] \<and>
   map sc_score (scoreAll key_orders fan_svc 1 (gather key_orders fan_svc 1 None)) = [1, 1 / 2] \<and>
   (\<exists>res s'. PYMK key_orders fan_svc 0 0 1 1 None = Some (res, s') \<and>
              map UserID res = [4] \<and> map Score res = [1]) \<and>
   (\<exists>res s'. PYMK key_orders fan_svc 0 0 1 2 None = Some (res, s') \<and>
              map UserID res = [4, 5] \<and> map Score res = [1, 1 / 2])"
proof -
  let ?out = "scoreAll key_orders fan_svc 1 (gather key_orders fan_svc 1 None)"
  obtain x4 x5 where o: "?out = [x4, x5]" "sc_id x4 = 4" "sc_score x4 = 1"
    "sc_id x5 = 5" "sc_score x5 = 1 / 2"
    using scoreAll_fan by blast
  have a: "\<exists>res s'. PYMK key_orders fan_svc 0 0 1 1 None = Some (res, s') \<and>
              map UserID res = [4] \<and> map Score res = [1]"
  proof -
    obtain res s' its R where b: "PYMK key_orders fan_svc 0 0 1 1 None = Some (res, s')"
      "res = rev (map toSuggestion its)" "mset its + R = mset ?out"
      "int (length res) = min (if (1::int) \<le> 0 then 20 else 1) (int (length ?out))"
      "\<forall>c \<in># R. \<forall>r \<in> set res. sc_score c \<le> Score r"
      using top_k_selection[OF fan_miss[of 0 1 1], where os=key_orders and t_set=0
          and exclude=None]
      by blast
    have "length its = 1" using b(4) by (simp add: b(2) o(1))
    moreover have "mset its + R = {#x4, x5#}" using b(3) by (simp add: o(1))
    ultimately have "(its = [x4] \<and> R = {#x5#}) \<or> (its = [x5] \<and> R = {#x4#})"
      by (rule mset_one_of_two[rotated])
    then have "its = [x4]"
      using b(5) by (auto simp add: b(2) Score_toSuggestion o)
    then show ?thesis
      using b(1) by (simp add: b(2) UserID_toSuggestion Score_toSuggestion o)
  qed
  have c: "\<exists>res s'. PYMK key_orders fan_svc 0 0 1 2 None = Some (res, s') \<and>
              map UserID res = [4, 5] \<and> map Score res = [1, 1 / 2]"
  proof -
    obtain res s' its R where b: "PYMK key_orders fan_svc 0 0 1 2 None = Some (res, s')"
      "res = rev (map toSuggestion its)" "mset its + R = mset ?out"
      "int (length res) = min (if (2::int) \<le> 0 then 20 else 2) (int (length ?out))"
      "sorted_wrt (\<lambda>a b. b \<le> a) (map Score res)"
      using top_k_selection[OF fan_miss[of 0 1 2], where os=key_orders and t_set=0
          and exclude=None]
      by blast
    have l: "length its = 2" using b(4) by (simp add: b(2) o(1))
    have "size (mset its + R) = size (mset ?out)" using b(3) by simp
    then have "length its + size R = 2" by (simp add: o(1))
    then have "R = {#}" using l by simp
    then have "mset its = {#x5, x4#}" using b(3) by (simp add: o(1))
    then have "its = [x5, x4] \<or> its = [x4, x5]" by (rule mset_two_of_two)
    then have "its = [x5, x4]"
      using b(5) by (auto simp add: b(2) Score_toSuggestion o)
    then show ?thesis
      using b(1) by (simp add: b(2) UserID_toSuggestion Score_toSuggestion o)
  qed
  show ?thesis
    using a c fan_miss by (simp add: o)
qed

theorem PYMK_frame_witness:
  "onHit (svc_cache tri_svc) = Some (PYMKCache_Inc ''hit'') \<and>
   onMiss (svc_cache tri_svc) = Some (PYMKCache_Inc ''miss'') \<and>
   onEvict (svc_cache tri_svc) = Some (PYMKCache_Inc ''evict'') \<and>
   ''follow'' \<notin> {''hit'', ''miss'', ''evict''} \<and>
   (\<exists>res s' m'.
      Service_PYMK key_orders tri_svc 0 0 1 5 None no_events = Some ((res, s'), m') \<and>
      PYMK key_orders tri_svc 0 0 1 5 None = Some (res, s') \<and>
      svc_G s' = tri_graph \<and> svc_E s' = None \<and> svc_C s' = main_cfg \<and>
      HasEdge (svc_G s') 1 2 \<and> DegreeOut (svc_G s') 1 = 2 \<and> UserEpoch (svc_G s') 1 = 2 \<and>
      PYMKCache m' ''hit'' = 0 \<and> PYMKCache m' ''miss'' = 1 \<and> PYMKCache m' ''evict'' = 0 \<and>
      PYMKCache m' ''follow'' = 0)"
proof -
  have f: "svc_G tri_svc = tri_graph" "svc_E tri_svc = None" "svc_C tri_svc = main_cfg"
    by (simp_all add: tri_svc_def svc_fields)
  have h: "HasEdge tri_graph 1 2" "DegreeOut tri_graph 1 = 2"
    by (simp_all add: HasEdge_iff DegreeOut_def following_set_tri)
  have "UserEpoch NewMemGraph 1 = 0" by (simp add: UserEpoch_def NewMemGraph_def)
  then have e: "UserEpoch tri_graph 1 = 2"
    by (simp add: tri_graph_def UserEpoch_Follow fst_Follow adj_simps following_set_new)
  have n: "PYMKCache no_events l = 0" for l by (simp add: no_events_def)
  have l: "''follow'' \<notin> {''hit'', ''miss'', ''evict''}" by simp
  show ?thesis
    using PYMK_frame[where os=key_orders and s=tri_svc and t_get=0 and t_set=0 and u=1
        and ?k0.0=5 and exclude=None and ord=key_order and m=no_events] f h e l
    by (auto simp add: tri_cache n)
qed

end
